theory Spec2Isabelle
  imports Complex_Main "HOL-Library.Word"
begin

unbundle bit_operations_syntax

section \<open>Bytes, typed arrays and run-time errors\<close>

text \<open>
  A \<open>Uint8Array\<close> is modelled by the list of its bytes, except as the argument of the
  LZ4 compressor, which reaches for the buffer behind the array: there it is the record
  \<open>Uint8Array\<close> below. A JavaScript number that the
  source uses as an integer is an \<open>int\<close> (or a \<open>nat\<close> where it is a length or a
  position that only grows from 0). Every \<open>throw\<close> of the source and every
  \<open>RangeError\<close> of the run time that a call can meet is a value of \<open>error\<close>.
\<close>

type_synonym byte = "8 word"

datatype error =
    BufferTooLarge      \<comment> \<open>\<open>throw new Error('Buffer too large for LZ4 compression')\<close>\<close>
  | RangeError          \<comment> \<open>a typed-array view or a \<open>DataView\<close> access outside its buffer\<close>
  | UnknownType         \<comment> \<open>\<open>throw new Error('Unknown type')\<close>\<close>
  | NotImplemented      \<comment> \<open>\<open>throw new Error('Not implemented')\<close>\<close>

text \<open>
  \<open>buf[i]\<close> on a typed array: the element, or \<open>undefined\<close> outside the array.
\<close>

definition elemAt :: "byte list \<Rightarrow> int \<Rightarrow> byte option" where
  "elemAt buf i = (if 0 \<le> i \<and> i < int (length buf) then Some (buf ! nat i) else None)"

text \<open>
  Inside \<open>|\<close> and \<open><<\<close> an \<open>undefined\<close> operand counts as 0.
\<close>

definition byteAt :: "byte list \<Rightarrow> int \<Rightarrow> 32 word" where
  "byteAt buf i = (case elemAt buf i of Some b \<Rightarrow> ucast b | None \<Rightarrow> 0)"

section \<open>LZ4 block compressor\<close>

definition MAX_BLOCK_INPUT_SIZE :: int where
  "MAX_BLOCK_INPUT_SIZE = 0x7E000000"

definition MAX_OFFSET :: int where
  "MAX_OFFSET = 65535"

definition MIN_MATCH :: nat where
  "MIN_MATCH = 4"

definition MFLIMIT :: int where
  "MFLIMIT = 12"

subsection \<open>PositionTable\<close>

text \<open>
  The table is an \<open>Int32Array\<close> of 4096 entries filled with -1. Its elements are 32-bit
  words read as signed numbers; a position is stored by its low 32 bits.
\<close>

type_synonym PositionTable = "32 word list"

definition newPositionTable :: PositionTable where
  "newPositionTable = replicate 4096 (-1)"

text \<open>
  \<open>val &= 0xFFFFFFFF; return Math.imul(val, 2654435761) & 0x0FFF\<close>: the low twelve bits
  of the 32-bit product.
\<close>

definition hash :: "32 word \<Rightarrow> nat" where
  "hash val = unat ((val * 2654435761) AND 0x0FFF)"

definition getPosition :: "PositionTable \<Rightarrow> 32 word \<Rightarrow> int" where
  "getPosition table val = sint (table ! hash val)"

definition setPosition :: "PositionTable \<Rightarrow> 32 word \<Rightarrow> nat \<Rightarrow> PositionTable" where
  "setPosition table val pos = table[hash val := word_of_nat pos]"

subsection \<open>Helpers\<close>

text \<open>
  \<open>buf[pos] | (buf[pos + 1] << 8) | (buf[pos + 2] << 16) | (buf[pos + 3] << 24)\<close>, a 32-bit
  value.
\<close>

definition readLeUint32 :: "byte list \<Rightarrow> int \<Rightarrow> 32 word" where
  "readLeUint32 buf pos =
     byteAt buf pos OR push_bit 8 (byteAt buf (pos + 1))
       OR push_bit 16 (byteAt buf (pos + 2)) OR push_bit 24 (byteAt buf (pos + 3))"

text \<open>
  \<open>writeLeUint16\<close> stores \<open>val & 0xFF\<close> and \<open>(val >> 8) & 0xFF\<close>; the model returns
  the two bytes.
\<close>

definition writeLeUint16 :: "int \<Rightarrow> byte list" where
  "writeLeUint16 val = [word_of_int (val AND 0xFF), word_of_int (drop_bit 8 val AND 0xFF)]"

text \<open>
  \<open>countMatch\<close>: the loop runs while \<open>back <= max\<close> and stops at the first position
  where \<open>buf[front] !== buf[back]\<close>.
\<close>

function countMatch :: "byte list \<Rightarrow> int \<Rightarrow> int \<Rightarrow> int \<Rightarrow> nat" where
  "countMatch buf front back maxi =
     (if back \<le> maxi then
        (if elemAt buf front \<noteq> elemAt buf back then 0
         else Suc (countMatch buf (front + 1) (back + 1) maxi))
      else 0)"
  by pat_completeness auto
termination
  by (relation "measure (\<lambda>(buf, front, back, maxi). nat (maxi + 1 - back))") auto

declare countMatch.simps [simp del]

text \<open>
  The length continuation of a sequence: \<open>while (remLen >= 255) { dst[dstPtr] = 255; dstPtr++;
  remLen -= 255; } dst[dstPtr] = remLen; dstPtr++\<close>.
\<close>

function writeLength :: "nat \<Rightarrow> byte list" where
  "writeLength remLen =
     (if remLen \<ge> 255 then 255 # writeLength (remLen - 255) else [word_of_nat remLen])"
  by pat_completeness auto
termination
  by (relation "measure id") auto

declare writeLength.simps [simp del]

text \<open>
  \<open>copySequence\<close> writes one sequence at \<open>dstHead\<close> and returns the number of bytes
  written. The bytes are written left to right without a gap, the token first (and
  completed by \<open>|=\<close> once the match length is known), so the model returns the bytes
  themselves and the caller appends them.
\<close>

definition copySequence :: "byte list \<Rightarrow> int \<Rightarrow> nat \<Rightarrow> byte list" where
  "copySequence literal matchOffset matchLen =
     (let litLen = length literal;
          tokenLit = (if litLen \<ge> 15 then push_bit 4 (15 :: byte) else push_bit 4 (word_of_nat litLen));
          litExt = (if litLen \<ge> 15 then writeLength (litLen - 15) else [])
      in if matchLen > 0 then
           (let matchLen' = matchLen - MIN_MATCH in
            if matchLen' \<ge> 15 then
              (tokenLit OR 15) # litExt @ literal @ writeLeUint16 matchOffset
                @ writeLength (matchLen' - 15)
            else
              (tokenLit OR word_of_nat matchLen') # litExt @ literal @ writeLeUint16 matchOffset)
         else tokenLit # litExt @ literal)"

subsection \<open>lz4CompressDefault\<close>

text \<open>
  A \<open>Uint8Array\<close> is a window on an \<open>ArrayBuffer\<close>: the bytes of the buffer before the
  window (\<open>byteOffset\<close> is their number), the bytes of the array itself, and the bytes of
  the buffer after the window. \<open>src[i]\<close> and \<open>src.length\<close> read the array; \<open>src.buffer\<close> is
  the whole buffer.
\<close>

record Uint8Array =
  bytesBefore :: "byte list"
  elements :: "byte list"
  bytesAfter :: "byte list"

definition bufferOf :: "Uint8Array \<Rightarrow> byte list" where
  "bufferOf a = bytesBefore a @ elements a @ bytesAfter a"


text \<open>
  The main loop, from the state \<open>(posTable, srcPtr, literalHead, dst)\<close> to the state at
  its exit. The positions are read in \<open>src\<close>, the bytes of the array. The literals of a
  sequence are \<open>new Uint8Array(src.buffer, literalHead, n)\<close>: \<open>n\<close> bytes of the buffer \<open>buf\<close>
  of the array from \<open>literalHead\<close> on, counted from the start of the buffer and not from
  \<open>src.byteOffset\<close>.
\<close>

definition MAX_INDEX :: "byte list \<Rightarrow> int" where
  "MAX_INDEX src = int (length src) - MFLIMIT"

definition viewOf :: "byte list \<Rightarrow> nat \<Rightarrow> nat \<Rightarrow> byte list" where
  "viewOf buf start n = take n (drop start buf)"

function lz4Loop ::
  "byte list \<Rightarrow> byte list \<Rightarrow> PositionTable \<Rightarrow> nat \<Rightarrow> nat \<Rightarrow> byte list \<Rightarrow> nat \<times> byte list" where
  "lz4Loop buf src posTable srcPtr literalHead dst =
     (if int srcPtr < MAX_INDEX src then
        (let curValue = readLeUint32 src (int srcPtr);
             matchPos = getPosition posTable curValue
         in if matchPos \<noteq> -1 \<and> curValue = readLeUint32 src matchPos
               \<and> int srcPtr - matchPos \<le> MAX_OFFSET then
              (let len = countMatch src matchPos (int srcPtr) (MAX_INDEX src)
               in if len < MIN_MATCH then (literalHead, dst)
                  else lz4Loop buf src posTable (srcPtr + len) (srcPtr + len)
                         (dst @ copySequence (viewOf buf literalHead (srcPtr - literalHead))
                                  (int srcPtr - matchPos) len))
            else lz4Loop buf src (setPosition posTable curValue srcPtr) (srcPtr + 1) literalHead dst)
      else (literalHead, dst))"
  by pat_completeness auto
termination
proof (relation "measure (\<lambda>(buf, src, posTable, srcPtr, literalHead, dst). length src - srcPtr)")
  show "wf (measure (\<lambda>(buf, src, posTable, srcPtr, literalHead, dst). length src - srcPtr))"
    by (rule wf_measure)
next
  fix buf src :: "byte list" and posTable :: PositionTable and srcPtr literalHead :: nat
    and dst :: "byte list" and curValue matchPos len
  assume "int srcPtr < MAX_INDEX src" and "\<not> len < MIN_MATCH"
  then have "srcPtr < length src" and "0 < len"
    by (simp_all add: MAX_INDEX_def MFLIMIT_def MIN_MATCH_def)
  then show "((buf, src, posTable, srcPtr + len, srcPtr + len,
               dst @ copySequence (viewOf buf literalHead (srcPtr - literalHead))
                       (int srcPtr - matchPos) len),
              buf, src, posTable, srcPtr, literalHead, dst)
             \<in> measure (\<lambda>(buf, src, posTable, srcPtr, literalHead, dst). length src - srcPtr)"
    by simp
next
  fix buf src :: "byte list" and posTable :: PositionTable and srcPtr literalHead :: nat
    and dst :: "byte list" and curValue matchPos
  assume "int srcPtr < MAX_INDEX src"
  then have "srcPtr < length src"
    by (simp add: MAX_INDEX_def MFLIMIT_def)
  then show "((buf, src, setPosition posTable curValue srcPtr, srcPtr + 1, literalHead, dst),
              buf, src, posTable, srcPtr, literalHead, dst)
             \<in> measure (\<lambda>(buf, src, posTable, srcPtr, literalHead, dst). length src - srcPtr)"
    by simp
qed

declare lz4Loop.simps [simp del]

text \<open>
  \<open>dst\<close> is allocated with \<open>srcLen + floor(srcLen / 255) + 16\<close> bytes. A store beyond
  the end of a typed array is dropped and \<open>new Uint8Array(dst.buffer, 0, dstPtr)\<close> then
  raises a \<open>RangeError\<close>, so the function returns the bytes written exactly when they fit.
\<close>

definition lz4CompressDefault :: "Uint8Array \<Rightarrow> error + byte list" where
  "lz4CompressDefault a =
     (let src = elements a;
          srcLen = length src;
          worstCaseBlockLength = srcLen + srcLen div 255 + 16;
          (literalHead, dst) = lz4Loop (bufferOf a) src newPositionTable 0 0 [];
          dst' = dst @ copySequence (viewOf (bufferOf a) literalHead (srcLen - literalHead)) 0 0
      in if length dst' \<le> worstCaseBlockLength then Inr dst' else Inl RangeError)"

definition lz4Compress :: "Uint8Array \<Rightarrow> error + byte list" where
  "lz4Compress a =
     (let inputSize = length (elements a) in
      if inputSize = 0 then Inr []
      else if int inputSize > MAX_BLOCK_INPUT_SIZE then Inl BufferTooLarge
      else (case lz4CompressDefault a of
              Inl e \<Rightarrow> Inl e
            | Inr tmp \<Rightarrow> Inr (0 # tmp)))"

section \<open>Byte sink and little-endian writers\<close>

text \<open>
  The bytes of a 32-bit and of a 16-bit value, least significant first (every \<open>DataView\<close>
  access of the source passes \<open>littleEndian = true\<close>).
\<close>

definition le32 :: "32 word \<Rightarrow> byte list" where
  "le32 w = [ucast w, ucast (drop_bit 8 w), ucast (drop_bit 16 w), ucast (drop_bit 24 w)]"

definition le16 :: "16 word \<Rightarrow> byte list" where
  "le16 w = [ucast w, ucast (drop_bit 8 w)]"

text \<open>
  A store of the bytes \<open>bs\<close> at offset \<open>off\<close> of an array that holds them
  (\<open>off + length bs \<le> length buf\<close>); \<open>TypedArray.set\<close> and, through the next
  definitions, the stores of a \<open>DataView\<close>. A \<open>DataView\<close> store converts its number
  to the width of the store (\<open>ToInt32\<close>, \<open>ToUint16\<close>, ...), which keeps the low bits.
\<close>

definition store :: "byte list \<Rightarrow> nat \<Rightarrow> byte list \<Rightarrow> byte list" where
  "store buf off bs = take off buf @ bs @ drop (off + length bs) buf"

definition setInt32 :: "byte list \<Rightarrow> nat \<Rightarrow> int \<Rightarrow> byte list" where
  "setInt32 buf off v = store buf off (le32 (word_of_int v))"

definition setUint32 :: "byte list \<Rightarrow> nat \<Rightarrow> int \<Rightarrow> byte list" where
  "setUint32 buf off v = store buf off (le32 (word_of_int v))"

definition setUint16 :: "byte list \<Rightarrow> nat \<Rightarrow> int \<Rightarrow> byte list" where
  "setUint16 buf off v = store buf off (le16 (word_of_int v))"

definition setUint8 :: "byte list \<Rightarrow> nat \<Rightarrow> int \<Rightarrow> byte list" where
  "setUint8 buf off v = store buf off [word_of_int v]"

text \<open>
  \<open>class ByteArray\<close>: the blocks written so far and the write position.
\<close>

record ByteArray =
  pos :: nat
  buffers :: "byte list list"

definition newByteArray :: ByteArray where
  "newByteArray = \<lparr>pos = 0, buffers = []\<rparr>"

definition tell :: "ByteArray \<Rightarrow> nat" where
  "tell file = pos file"

definition ByteArray_write :: "ByteArray \<Rightarrow> byte list \<Rightarrow> ByteArray" where
  "ByteArray_write file buffer = file\<lparr>pos := pos file + length buffer, buffers := buffers file @ [buffer]\<rparr>"

definition getBuffers :: "ByteArray \<Rightarrow> byte list list" where
  "getBuffers file = buffers file"

text \<open>
  \<open>writeInt\<close>. The array has \<open>size\<close> zero bytes (\<open>sz\<close>, and \<open>isSigned\<close> for \<open>signed\<close>); each branch stores inside it (the
  branch for 8 signed bytes stores at offsets 0 and 1 of eight bytes), and a size other
  than 4, 8, 1 and 6 stores nothing. \<open>value & 0XFFFFFFFF\<close> keeps the low 32 bits and
  \<open>Math.floor(value / 4294967296) & 0XFFFF\<close> the sixteen bits above them.
\<close>

definition writeIntBytes :: "int \<Rightarrow> nat \<Rightarrow> bool \<Rightarrow> byte list" where
  "writeIntBytes v sz isSigned =
     (let bytes = replicate sz (0 :: byte) in
      if sz = 4 then
        (if isSigned then setInt32 bytes 0 v else setUint32 bytes 0 v)
      else if sz = 8 then
        (if isSigned then
           (let bytes' = setInt32 bytes 0 v in
            if v < 0 then setInt32 bytes' 1 (-1) else bytes')
         else setUint32 bytes 0 v)
      else if sz = 1 then setUint8 bytes 0 v
      else if sz = 6 then
        setUint16 (setUint32 bytes 0 (v AND 0xFFFFFFFF)) 4 ((v div 4294967296) AND 0xFFFF)
      else bytes)"

definition writeInt :: "ByteArray \<Rightarrow> int \<Rightarrow> nat \<Rightarrow> bool \<Rightarrow> ByteArray" where
  "writeInt file v sz isSigned = ByteArray_write file (writeIntBytes v sz isSigned)"

section \<open>USDZ container\<close>

text \<open>
  \<open>getUsdzFromUsdc\<close>. \<open>pre\<close> is the local file header with the extra field that pads
  to 64 bytes, \<open>post\<close> the central directory and its end record. Each block of the
  source advances \<open>p\<close> and stores at \<open>p\<close>; the model keeps the offsets as the sums the
  source computes.
\<close>

definition usdzName :: "byte list" where
  "usdzName = [0x74, 0x6d, 0x70, 0x2e, 0x75, 0x73, 0x64, 0x63]"

definition usdzExtraSize :: nat where
  "usdzExtraSize = 64 - ((34 + length usdzName) mod 64)"

definition usdzPre :: "nat \<Rightarrow> byte list" where
  "usdzPre contentsSize =
     (let pre0 = replicate (34 + length usdzName + usdzExtraSize) (0 :: byte);
          p = 0;
          pre1 = store pre0 p [0x50, 0x4b, 0x03, 0x04];
          p = p + 4;
          pre2 = setUint16 pre1 p 20;
          p = p + 2;
          p = p + 2;
          p = p + 2;
          p = p + 4;
          p = p + 4;
          pre3 = setUint32 pre2 p (int contentsSize);
          p = p + 4;
          pre4 = setUint32 pre3 p (int contentsSize);
          p = p + 4;
          pre5 = setUint16 pre4 p (int (length usdzName));
          p = p + 2;
          pre6 = setUint16 pre5 p (int (usdzExtraSize + 4));
          p = p + 2;
          pre7 = store pre6 p usdzName;
          p = p + length usdzName;
          pre8 = setUint16 pre7 p 1;
          p = p + 2;
          pre9 = setUint16 pre8 p (int usdzExtraSize)
      in pre9)"

definition usdzPost :: "nat \<Rightarrow> nat \<Rightarrow> byte list" where
  "usdzPost preLength contentsSize =
     (let post0 = replicate (46 + length usdzName + 22) (0 :: byte);
          p = 0;
          cdOffset = preLength + contentsSize;
          post1 = store post0 p [0x50, 0x4B, 0x01, 0x02];
          p = p + 4;
          post2 = setUint16 post1 p 62;
          p = p + 2;
          post3 = setUint16 post2 p 20;
          p = p + 2;
          p = p + 2;
          p = p + 2;
          p = p + 4;
          p = p + 4;
          post4 = setUint32 post3 p (int contentsSize);
          p = p + 4;
          post5 = setUint32 post4 p (int contentsSize);
          p = p + 4;
          post6 = setUint16 post5 p (int (length usdzName));
          p = p + 2;
          p = p + 2;
          p = p + 2;
          p = p + 2;
          p = p + 2;
          p = p + 4;
          p = p + 4;
          post7 = store post6 p usdzName;
          p = p + length usdzName;
          cdLength = 46 + length usdzName;
          post8 = store post7 p [0x50, 0x4B, 0x05, 0x06];
          p = p + 4;
          p = p + 2;
          p = p + 2;
          post9 = setUint16 post8 p 1;
          p = p + 2;
          post10 = setUint16 post9 p 1;
          p = p + 2;
          post11 = setUint32 post10 p (int cdLength);
          p = p + 4;
          post12 = setUint32 post11 p (int cdOffset)
      in post12)"

text \<open>
  The archive has \<open>pre.length + contentsSize + post.length\<close> bytes and receives
  \<open>pre\<close>, the blocks of the sink and \<open>post\<close> one after the other.
\<close>

definition getUsdzFromUsdc :: "ByteArray \<Rightarrow> byte list" where
  "getUsdzFromUsdc usdc =
     (let buffers = getBuffers usdc;
          contentsSize = sum_list (map length buffers);
          pre = usdzPre contentsSize;
          post = usdzPost (length pre) contentsSize
      in concat (pre # buffers @ [post]))"

text \<open>
  What a reader of the archive sees: an unsigned little-endian field of \<open>n\<close> bytes at
  an offset.
\<close>

definition leNat :: "byte list \<Rightarrow> nat" where
  "leNat bs = foldr (\<lambda>b acc. unat b + 256 * acc) bs 0"

definition fieldAt :: "byte list \<Rightarrow> nat \<Rightarrow> nat \<Rightarrow> nat" where
  "fieldAt buf off n = leNat (take n (drop off buf))"

section \<open>Mesh set\<close>

text \<open>
  \<open>Map<Color, Mesh>\<close> is iterated by \<open>forEach\<close> in insertion order: an association
  list. A \<open>Color\<close> is a 24-bit number. A coordinate is a JavaScript number, modelled
  by the real it denotes; a face index is a natural number. What the run time and the
  molstar library do with numbers is a parameter of the exporters:
  \<^item> \<open>numStr\<close>, the conversion of a number to a string in \<open>'v ' + position[0]\<close>;
  \<^item> \<open>toRgbNormalized\<close>, molstar's \<open>Color.toRgbNormalized\<close>;
  \<^item> \<open>f32\<close>, the bits of the single-precision float a \<open>Float32Array\<close> stores for a
    number;
  \<^item> \<open>stringify\<close>, \<open>JSON.stringify\<close>.
\<close>

type_synonym Vec3 = "real \<times> real \<times> real"

type_synonym Color = nat

record Mesh =
  positions :: "Vec3 list"
  normals :: "Vec3 list"
  faces :: "nat list"

section \<open>OBJ/MTL exporter\<close>

text \<open>
  The string of a natural number (\<open>'g m' + refId\<close>, \<open>' ' + point\<close>): its decimal digits.
\<close>

definition digitChar :: "nat \<Rightarrow> char" where
  "digitChar d = ''0123456789'' ! d"

function natStr :: "nat \<Rightarrow> string" where
  "natStr n = (if n < 10 then [digitChar n] else natStr (n div 10) @ [digitChar (n mod 10)])"
  by pat_completeness auto
termination
  by (relation "measure id") auto

declare natStr.simps [simp del]

definition newline :: string where
  "newline = [CHR 0x0A]"

text \<open>
  \<open>lines.join('\n')\<close>.
\<close>

fun joinLines :: "string list \<Rightarrow> string" where
  "joinLines [] = []"
| "joinLines [l] = l"
| "joinLines (l # ls) = l @ newline @ joinLines ls"

definition positionLine :: "(real \<Rightarrow> string) \<Rightarrow> Vec3 \<Rightarrow> string" where
  "positionLine numStr position =
     (case position of (x, y, z) \<Rightarrow> ''v '' @ numStr x @ '' '' @ numStr y @ '' '' @ numStr z)"

definition normalLine :: "(real \<Rightarrow> string) \<Rightarrow> Vec3 \<Rightarrow> string" where
  "normalLine numStr normal =
     (case normal of (x, y, z) \<Rightarrow> ''vn '' @ numStr x @ '' '' @ numStr y @ '' '' @ numStr z)"

text \<open>
  \<open>point = pointOffset + faces[i + j]\<close>: past the end of \<open>faces\<close> the element is
  \<open>undefined\<close>, the sum is \<open>NaN\<close> and its string is \<open>NaN\<close>.
\<close>

definition pointStr :: "nat \<Rightarrow> nat list \<Rightarrow> nat \<Rightarrow> string" where
  "pointStr pointOffset fs k =
     (if k < length fs then natStr (pointOffset + fs ! k) else ''NaN'')"

definition faceLine :: "nat \<Rightarrow> nat list \<Rightarrow> nat \<Rightarrow> string" where
  "faceLine pointOffset fs i =
     ''f'' @ concat (map (\<lambda>j. '' '' @ pointStr pointOffset fs (i + j) @ ''//''
                               @ pointStr pointOffset fs (i + j)) [0, 1, 2])"

text \<open>
  \<open>for (let i = 0; i < faces.length; i += 3)\<close>, from \<open>i\<close> on.
\<close>

function faceLines :: "nat \<Rightarrow> nat list \<Rightarrow> nat \<Rightarrow> string list" where
  "faceLines pointOffset fs i =
     (if i < length fs then faceLine pointOffset fs i # faceLines pointOffset fs (i + 3)
      else [])"
  by pat_completeness auto
termination
  by (relation "measure (\<lambda>(pointOffset, fs, i). length fs - i)") auto

declare faceLines.simps [simp del]

record ObjState =
  objLines :: "string list"
  mtlLines :: "string list"
  refId :: nat
  pointOffset :: nat

definition mtlBlock :: "(real \<Rightarrow> string) \<Rightarrow> nat \<Rightarrow> Vec3 \<Rightarrow> string" where
  "mtlBlock numStr rid rgb =
     (case rgb of (r, g, b) \<Rightarrow>
        ''newmtl k'' @ natStr rid @ newline @
        ''Ns 163'' @ newline @
        ''Ni 0.001'' @ newline @
        ''illum 2'' @ newline @
        ''Ka 0.20 0.20 0.20'' @ newline @
        ''Kd '' @ numStr r @ '' '' @ numStr g @ '' '' @ numStr b @ newline @
        ''Ks 0.25 0.25 0.25'')"

text \<open>
  The body of \<open>meshByColor.forEach\<close> in \<open>exportObj\<close>.
\<close>

definition exportObjMesh ::
  "(real \<Rightarrow> string) \<Rightarrow> (Color \<Rightarrow> Vec3) \<Rightarrow> ObjState \<Rightarrow> Color \<times> Mesh \<Rightarrow> ObjState" where
  "exportObjMesh numStr toRgbNormalized st entry =
     (case entry of (color, mesh) \<Rightarrow>
        st\<lparr>objLines := objLines st
                 @ [''g m'' @ natStr (refId st), ''usemtl k'' @ natStr (refId st)]
                 @ map (positionLine numStr) (positions mesh)
                 @ map (normalLine numStr) (normals mesh)
                 @ faceLines (pointOffset st) (faces mesh) 0,
           mtlLines := mtlLines st @ [mtlBlock numStr (refId st) (toRgbNormalized color)],
           refId := refId st + 1,
           pointOffset := pointOffset st + length (positions mesh)\<rparr>)"

definition exportObj ::
  "(real \<Rightarrow> string) \<Rightarrow> (Color \<Rightarrow> Vec3) \<Rightarrow> (Color \<times> Mesh) list \<Rightarrow> string \<Rightarrow> string \<times> string" where
  "exportObj numStr toRgbNormalized meshByColor outName =
     (let st0 = \<lparr>objLines = [''mtllib '' @ outName @ ''.mtl''], mtlLines = [],
                 refId = 0, pointOffset = 1\<rparr>;
          st = foldl (exportObjMesh numStr toRgbNormalized) st0 meshByColor
      in (joinLines (objLines st), joinLines (mtlLines st)))"

text \<open>
  The texts of a mesh set written by recursion over its entries, for comparison with the
  loop of \<open>exportObj\<close>: \<open>rid\<close> is the number of the first entry and \<open>off\<close> the
  vertex offset it starts from.
\<close>

fun objBlocks :: "(real \<Rightarrow> string) \<Rightarrow> nat \<Rightarrow> nat \<Rightarrow> (Color \<times> Mesh) list \<Rightarrow> string list" where
  "objBlocks numStr rid off [] = []"
| "objBlocks numStr rid off (e # es) =
     [''g m'' @ natStr rid, ''usemtl k'' @ natStr rid]
       @ map (positionLine numStr) (positions (snd e))
       @ map (normalLine numStr) (normals (snd e))
       @ faceLines off (faces (snd e)) 0
       @ objBlocks numStr (rid + 1) (off + length (positions (snd e))) es"

fun mtlBlocks ::
  "(real \<Rightarrow> string) \<Rightarrow> (Color \<Rightarrow> Vec3) \<Rightarrow> nat \<Rightarrow> (Color \<times> Mesh) list \<Rightarrow> string list" where
  "mtlBlocks numStr toRgbNormalized rid [] = []"
| "mtlBlocks numStr toRgbNormalized rid (e # es) =
     mtlBlock numStr rid (toRgbNormalized (fst e)) # mtlBlocks numStr toRgbNormalized (rid + 1) es"

text \<open>
  The invariants of the mesh data model, in the words of the specification: positions and
  normals have the same length, every face index is below the number of positions, and
  the number of face indices is divisible by 3.
\<close>

definition meshInvariant :: "Mesh \<Rightarrow> bool" where
  "meshInvariant mesh \<longleftrightarrow>
     length (positions mesh) = length (normals mesh)
     \<and> list_all (\<lambda>f. f < length (positions mesh)) (faces mesh)
     \<and> length (faces mesh) mod 3 = 0"

section \<open>GLB exporter\<close>

datatype json =
    JNumber real
  | JInt int
  | JString string
  | JArray "json list"
  | JObject "(string \<times> json) list"

definition MAX_VALUE :: real where
  "MAX_VALUE = (2 ^ 53 - 1) * 2 ^ 971"

text \<open>
  \<open>computeBounding\<close>: the componentwise minimum and maximum, from \<open>Number.MAX_VALUE\<close>
  and its negation.
\<close>

definition computeBounding :: "Vec3 list \<Rightarrow> Vec3 \<times> Vec3" where
  "computeBounding points =
     foldl (\<lambda>(mn, mx) point.
              (case (mn, mx, point) of ((mn0, mn1, mn2), (mx0, mx1, mx2), (p0, p1, p2)) \<Rightarrow>
                 ((min p0 mn0, min p1 mn1, min p2 mn2), (max p0 mx0, max p1 mx1, max p2 mx2))))
       ((MAX_VALUE, MAX_VALUE, MAX_VALUE), (- MAX_VALUE, - MAX_VALUE, - MAX_VALUE)) points"

definition jsonVec3 :: "Vec3 \<Rightarrow> json" where
  "jsonVec3 v = (case v of (x, y, z) \<Rightarrow> JArray [JNumber x, JNumber y, JNumber z])"

text \<open>
  \<open>flattenVec3s(vs).buffer\<close> and \<open>new Uint32Array(faces).buffer\<close>, in the byte order of
  the little-endian platforms the tool runs on.
\<close>

definition flattenVec3s :: "(real \<Rightarrow> 32 word) \<Rightarrow> Vec3 list \<Rightarrow> byte list" where
  "flattenVec3s f32 vs =
     concat (map (\<lambda>(x, y, z). le32 (f32 x) @ le32 (f32 y) @ le32 (f32 z)) vs)"

definition uint32ArrayBuffer :: "nat list \<Rightarrow> byte list" where
  "uint32ArrayBuffer xs = concat (map (\<lambda>x. le32 (word_of_nat x)) xs)"

record GlbState =
  primitives :: "json list"
  accessors :: "json list"
  bufferViews :: "json list"
  binaryBuffer :: "byte list list"
  materials :: "json list"
  byteOffset :: nat

definition bufferView :: "nat \<Rightarrow> nat \<Rightarrow> int \<Rightarrow> json" where
  "bufferView off len target =
     JObject [(''buffer'', JInt 0), (''byteOffset'', JInt (int off)),
              (''byteLength'', JInt (int len)), (''target'', JInt target)]"

text \<open>
  The body of \<open>meshByColor.forEach\<close> in \<open>exportGlb\<close>.
\<close>

definition exportGlbMesh ::
  "(real \<Rightarrow> 32 word) \<Rightarrow> (Color \<Rightarrow> Vec3) \<Rightarrow> GlbState \<Rightarrow> Color \<times> Mesh \<Rightarrow> GlbState" where
  "exportGlbMesh f32 toRgbNormalized st entry =
     (case entry of (color, mesh) \<Rightarrow>
        (let accessorOffset = length (accessors st);
             faceBuffer = uint32ArrayBuffer (faces mesh);
             positionBuffer = flattenVec3s f32 (positions mesh);
             normalBuffer = flattenVec3s f32 (normals mesh);
             materialOffset = length (materials st);
             (positionMin, positionMax) = computeBounding (positions mesh);
             byteOffset0 = byteOffset st;
             byteOffset1 = byteOffset0 + length faceBuffer;
             byteOffset2 = byteOffset1 + length positionBuffer;
             byteOffset3 = byteOffset2 + length normalBuffer;
             (r, g, b) = toRgbNormalized color
         in \<lparr>primitives = primitives st @
                 [JObject [(''attributes'',
                              JObject [(''POSITION'', JInt (int accessorOffset + 1)),
                                       (''NORMAL'', JInt (int accessorOffset + 2))]),
                           (''indices'', JInt (int accessorOffset)),
                           (''material'', JInt (int materialOffset))]],
             accessors = accessors st @
                 [JObject [(''bufferView'', JInt (int accessorOffset)), (''byteOffset'', JInt 0),
                           (''componentType'', JInt 5125),
                           (''count'', JInt (int (length (faces mesh)))),
                           (''type'', JString ''SCALAR'')],
                  JObject [(''bufferView'', JInt (int accessorOffset + 1)), (''byteOffset'', JInt 0),
                           (''componentType'', JInt 5126),
                           (''count'', JInt (int (length (positions mesh)))),
                           (''type'', JString ''VEC3''),
                           (''max'', jsonVec3 positionMax), (''min'', jsonVec3 positionMin)],
                  JObject [(''bufferView'', JInt (int accessorOffset + 2)), (''byteOffset'', JInt 0),
                           (''componentType'', JInt 5126),
                           (''count'', JInt (int (length (normals mesh)))),
                           (''type'', JString ''VEC3'')]],
             bufferViews = bufferViews st @
                 [bufferView byteOffset0 (length faceBuffer) 34963,
                  bufferView byteOffset1 (length positionBuffer) 34962,
                  bufferView byteOffset2 (length normalBuffer) 34962],
             binaryBuffer = binaryBuffer st @ [faceBuffer, positionBuffer, normalBuffer],
             materials = materials st @
                 [JObject [(''pbrMetallicRoughness'',
                              JObject [(''baseColorFactor'',
                                          JArray [JNumber r, JNumber g, JNumber b, JNumber 1]),
                                       (''metallicFactor'', JInt 0),
                                       (''roughnessFactor'', JNumber (1 / 2))])]],
             byteOffset = byteOffset3\<rparr>))"

definition gltfManifest :: "GlbState \<Rightarrow> json" where
  "gltfManifest st =
     JObject [(''asset'', JObject [(''version'', JString ''2.0'')]),
              (''scenes'', JArray [JObject [(''nodes'', JArray [JInt 0])]]),
              (''nodes'', JArray [JObject [(''mesh'', JInt 0)]]),
              (''meshes'', JArray [JObject [(''primitives'', JArray (primitives st))]]),
              (''buffers'', JArray [JObject [(''byteLength'', JInt (int (byteOffset st)))]]),
              (''bufferViews'', JArray (bufferViews st)),
              (''accessors'', JArray (accessors st)),
              (''materials'', JArray (materials st))]"

text \<open>
  \<open>createChunk\<close>: the chunk header is \<open>new Uint32Array([byteLength, chunkType]).buffer\<close>,
  which keeps the low 32 bits of each number.
\<close>

definition createChunk :: "nat \<Rightarrow> byte list list \<Rightarrow> nat \<Rightarrow> byte \<Rightarrow> byte list list \<times> nat" where
  "createChunk chunkType buf byteLength padChar =
     (let (byteLength', padding) =
            (if byteLength mod 4 \<noteq> 0 then
               (let pad = 4 - byteLength mod 4
                in (byteLength + pad, Some (replicate pad padChar)))
             else (byteLength, None));
          tmp = (le32 (word_of_nat byteLength') @ le32 (word_of_nat chunkType)) # buf;
          tmp' = (case padding of Some p \<Rightarrow> tmp @ [p] | None \<Rightarrow> tmp)
      in (tmp', byteLength' + 8))"

text \<open>
  \<open>exportGlb\<close>; \<open>exportGlbMeshes\<close> is the state after its \<open>forEach\<close>. The result has \<open>glbBufferLength\<close> zero bytes and receives the blocks one
  after the other; a block that does not fit raises a \<open>RangeError\<close>.
\<close>

definition exportGlbMeshes ::
  "(real \<Rightarrow> 32 word) \<Rightarrow> (Color \<Rightarrow> Vec3) \<Rightarrow> (Color \<times> Mesh) list \<Rightarrow> GlbState" where
  "exportGlbMeshes f32 toRgbNormalized meshByColor =
     foldl (exportGlbMesh f32 toRgbNormalized)
       \<lparr>primitives = [], accessors = [], bufferViews = [], binaryBuffer = [],
        materials = [], byteOffset = 0\<rparr> meshByColor"

definition exportGlb ::
  "(json \<Rightarrow> string) \<Rightarrow> (real \<Rightarrow> 32 word) \<Rightarrow> (Color \<Rightarrow> Vec3) \<Rightarrow> (Color \<times> Mesh) list
     \<Rightarrow> error + byte list" where
  "exportGlb stringify f32 toRgbNormalized meshByColor =
     (let st = exportGlbMeshes f32 toRgbNormalized meshByColor;
          binaryBufferLength = byteOffset st;
          jsonString = stringify (gltfManifest st);
          jsonBuffer = map (\<lambda>c. (of_char c :: byte)) jsonString;
          (jsonChunk, jsonChunkLength) = createChunk 0x4E4F534A [jsonBuffer] (length jsonBuffer) 0x20;
          (binaryChunk, binaryChunkLength) =
             createChunk 0x004E4942 (binaryBuffer st) binaryBufferLength 0x00;
          glbBufferLength = 12 + jsonChunkLength + binaryChunkLength;
          glbBuffer = (le32 0x46546C67 @ le32 0x00000002 @ le32 (word_of_nat glbBufferLength))
                        # jsonChunk @ binaryChunk;
          bytes = concat glbBuffer
      in if length bytes \<le> glbBufferLength
         then Inr (bytes @ replicate (glbBufferLength - length bytes) 0)
         else Inl RangeError)"

text \<open>
  For the statements about a GLB buffer: \<open>n\<close> rounded up to a multiple of 4.
\<close>

definition pad4 :: "nat \<Rightarrow> nat" where
  "pad4 n = (if n mod 4 \<noteq> 0 then n + (4 - n mod 4) else n)"

section \<open>USD integer coding\<close>

text \<open>
  A \<open>DataView\<close> store that the run time checks: outside the buffer it raises a
  \<open>RangeError\<close>. \<open>setInt8\<close>, \<open>setInt16\<close> and \<open>setInt32\<close> keep the low 8, 16 and 32
  bits of the number.
\<close>

definition checkedStore :: "byte list \<Rightarrow> nat \<Rightarrow> byte list \<Rightarrow> error + byte list" where
  "checkedStore buf off bs =
     (if off + length bs \<le> length buf then Inr (store buf off bs) else Inl RangeError)"

definition setInt8 :: "byte list \<Rightarrow> nat \<Rightarrow> int \<Rightarrow> error + byte list" where
  "setInt8 buf off v = checkedStore buf off [word_of_int v]"

definition setInt16 :: "byte list \<Rightarrow> nat \<Rightarrow> int \<Rightarrow> error + byte list" where
  "setInt16 buf off v = checkedStore buf off (le16 (word_of_int v))"

definition setInt32Checked :: "byte list \<Rightarrow> nat \<Rightarrow> int \<Rightarrow> error + byte list" where
  "setInt32Checked buf off v = checkedStore buf off (le32 (word_of_int v))"

text \<open>
  \<open>data[k] |= x\<close> on a typed array: outside the array the store is dropped.
\<close>

definition orAt :: "byte list \<Rightarrow> nat \<Rightarrow> byte \<Rightarrow> byte list" where
  "orAt data k x = (if k < length data then data[k := data ! k OR x] else data)"

text \<open>
  \<open>counts.set(value, (counts.get(value) ?? 0) + 1)\<close> on a \<open>Map\<close>, which keeps its keys in
  the order of their first insertion.
\<close>

fun countsIncr :: "(int \<times> nat) list \<Rightarrow> int \<Rightarrow> (int \<times> nat) list" where
  "countsIncr [] v = [(v, 1)]"
| "countsIncr ((k, c) # rest) v =
     (if k = v then (k, c + 1) # rest else (k, c) # countsIncr rest v)"

text \<open>
  The first loop of \<open>usdInt32Compress\<close>: the tally of the differences.
\<close>

fun tallyDeltas :: "int list \<Rightarrow> int \<Rightarrow> (int \<times> nat) list \<Rightarrow> (int \<times> nat) list" where
  "tallyDeltas [] preValue counts = counts"
| "tallyDeltas (curValue # rest) preValue counts =
     tallyDeltas rest curValue (countsIncr counts (curValue - preValue))"

text \<open>
  \<open>counts.forEach\<close>: the most frequent difference, the largest one in case of a tie.
\<close>

definition pickCommon :: "(int \<times> nat) list \<Rightarrow> int" where
  "pickCommon counts =
     fst (foldl (\<lambda>(commonValue, commonCount) (v, count).
                   if count > commonCount then (v, count)
                   else if count = commonCount \<and> v > commonValue then (v, commonCount)
                   else (commonValue, commonCount))
            (0, 0) counts)"

text \<open>
  The second loop, from element \<open>v\<close> on: \<open>data\<close> is the buffer, \<open>p\<close> the position of
  the next payload byte.
\<close>

fun codeValues ::
  "int \<Rightarrow> int list \<Rightarrow> nat \<Rightarrow> int \<Rightarrow> byte list \<times> nat \<Rightarrow> error + byte list \<times> nat" where
  "codeValues commonValue [] v preValue (data, p) = Inr (data, p)"
| "codeValues commonValue (curValue # rest) v preValue (data, p) =
     (let val = curValue - preValue;
          i = v + 16
      in if val \<noteq> commonValue then
           (if val \<le> 0x7F \<and> val \<ge> - 0x80 then
              (case setInt8 (orAt data (i div 4) (push_bit ((i mod 4) * 2) 1)) p val of
                 Inl e \<Rightarrow> Inl e
               | Inr data' \<Rightarrow> codeValues commonValue rest (v + 1) curValue (data', p + 1))
            else if val \<le> 0x7FFF \<and> val \<ge> - 0x8000 then
              (case setInt16 (orAt data (i div 4) (push_bit ((i mod 4) * 2) 2)) p val of
                 Inl e \<Rightarrow> Inl e
               | Inr data' \<Rightarrow> codeValues commonValue rest (v + 1) curValue (data', p + 2))
            else
              (case setInt32Checked (orAt data (i div 4) (push_bit ((i mod 4) * 2) 3)) p val of
                 Inl e \<Rightarrow> Inl e
               | Inr data' \<Rightarrow> codeValues commonValue rest (v + 1) curValue (data', p + 4)))
         else codeValues commonValue rest (v + 1) curValue (data, p))"

definition usdInt32Compress :: "int list \<Rightarrow> error + byte list" where
  "usdInt32Compress vals =
     (let valueLen = length vals in
      if valueLen = 0 then Inr []
      else
        (let worstSize = 4 + (valueLen * 2 + 7) div 8 + valueLen * 4;
             data = replicate worstSize (0 :: byte);
             commonValue = pickCommon (tallyDeltas vals 0 []);
             p = 4 + (valueLen * 2 + 7) div 8
         in case setInt32Checked data 0 commonValue of
              Inl e \<Rightarrow> Inl e
            | Inr data' \<Rightarrow>
                (case codeValues commonValue vals 0 0 (data', p) of
                   Inl e \<Rightarrow> Inl e
                 | Inr (data'', p') \<Rightarrow>
                     if p' \<le> length data'' then Inr (take p' data'') else Inl RangeError)))"

text \<open>
  \<open>encodeInts\<close> and \<open>writeInt32Compressed\<close> are modelled with the Crate writer.

  The decoder of the claim, for a stream that encodes \<open>n\<close> numbers: the common value is
  the signed 32-bit number in the first four bytes; the code of element \<open>v\<close> is the pair
  of bits number \<open>v + 16\<close>, four pairs to a byte, counted from byte 0; the payload starts
  after the code table and holds, for a code 1, 2 or 3, a signed little-endian number of
  8, 16 or 32 bits; the differences are summed from 0 in 32-bit arithmetic.
\<close>

definition word16 :: "byte \<Rightarrow> byte \<Rightarrow> 16 word" where
  "word16 b0 b1 = ucast b0 OR push_bit 8 (ucast b1)"

definition word32 :: "byte \<Rightarrow> byte \<Rightarrow> byte \<Rightarrow> byte \<Rightarrow> 32 word" where
  "word32 b0 b1 b2 b3 =
     ucast b0 OR push_bit 8 (ucast b1) OR push_bit 16 (ucast b2) OR push_bit 24 (ucast b3)"

definition codeAt :: "byte list \<Rightarrow> nat \<Rightarrow> byte" where
  "codeAt bytes v = drop_bit (((v + 16) mod 4) * 2) (bytes ! ((v + 16) div 4)) AND 3"

definition deltaAt :: "byte list \<Rightarrow> 32 word \<Rightarrow> byte \<Rightarrow> nat \<Rightarrow> 32 word \<times> nat" where
  "deltaAt bytes common code p =
     (if code = 0 then (common, p)
      else if code = 1 then (scast (bytes ! p), p + 1)
      else if code = 2 then (scast (word16 (bytes ! p) (bytes ! (p + 1))), p + 2)
      else (word32 (bytes ! p) (bytes ! (p + 1)) (bytes ! (p + 2)) (bytes ! (p + 3)), p + 4))"

fun decodeValues :: "byte list \<Rightarrow> 32 word \<Rightarrow> nat \<Rightarrow> nat \<Rightarrow> nat \<Rightarrow> 32 word \<Rightarrow> int list" where
  "decodeValues bytes common 0 v p prev = []"
| "decodeValues bytes common (Suc k) v p prev =
     (let (delta, p') = deltaAt bytes common (codeAt bytes v) p;
          cur = prev + delta
      in sint cur # decodeValues bytes common k (v + 1) p' cur)"

definition usdInt32Decode :: "nat \<Rightarrow> byte list \<Rightarrow> int list" where
  "usdInt32Decode n bytes =
     (if n = 0 then []
      else decodeValues bytes (word32 (bytes ! 0) (bytes ! 1) (bytes ! 2) (bytes ! 3))
             n 0 (4 + (n * 2 + 7) div 8) 0)"

text \<open>
  The range of a 32-bit integer.
\<close>

definition in32 :: "int \<Rightarrow> bool" where
  "in32 x \<longleftrightarrow> - 2147483648 \<le> x \<and> x < 2147483648"

section \<open>A reference decoder for LZ4 blocks\<close>

text \<open>
  The decoder of the LZ4 block format, written from the format and not from the
  compressor. A block is a series of sequences. A sequence starts with a token: its high
  four bits are the literal length and its low four bits the match length minus 4; a
  length field of 15 is continued by bytes that are added to it, until a byte other than
  255. The literals follow. The block ends after the literals of its last sequence; any
  other sequence goes on with a two-byte little-endian offset, which is not 0 and does
  not reach before the start of the output, and with the continuation of the match
  length; the match is copied byte by byte from \<open>offset\<close> bytes back in the output, so it
  may overlap the bytes it produces. A block holds at least one sequence: the empty byte
  string is not a block.
\<close>

fun readLength :: "nat \<Rightarrow> byte list \<Rightarrow> (nat \<times> byte list) option" where
  "readLength acc [] = None"
| "readLength acc (b # bs) =
     (if b = 255 then readLength (acc + 255) bs else Some (acc + unat b, bs))"

definition readNibbleLength :: "nat \<Rightarrow> byte list \<Rightarrow> (nat \<times> byte list) option" where
  "readNibbleLength nibble inp = (if nibble = 15 then readLength 15 inp else Some (nibble, inp))"






text \<open>
  For the statements about a sequence: the four bits that encode a length \<open>k\<close> in the
  token, and the bytes that continue it.
\<close>

definition nibble :: "nat \<Rightarrow> byte" where
  "nibble k = (if k \<ge> 15 then 15 else word_of_nat k)"



section \<open>USD scene tree\<close>

text \<open>
  \<open>SpecType\<close>, with the names of the enum.
\<close>

datatype SpecType =
    Attribute | Connection | Expression | Mapper | MapperArg | Prim | PseudoRoot
  | Relationship | RelationshipTarget | Variant | VariantSet

text \<open>
  The objects of the tree are mutable and compared by identity, so every prim and every
  attribute carries an identifier, and the field \<open>pathIndex\<close> of the objects lives in a
  store indexed by the identifiers. A new prim has \<open>pathIndex = 0\<close> and a new attribute
  \<open>pathIndex = -1\<close>.

  The value of an attribute together with its \<open>valueType\<close> and \<open>isArray\<close>: \<open>null\<close>, another
  attribute (a connection), a prim (a relationship), or a value of one of the types that
  \<open>addField\<close> knows; \<open>OtherValue\<close> stands for every other \<open>valueType\<close>. The payloads that
  only reach the bytes of the file are left out.
\<close>

datatype UsdValue =
    Null
  | AttributeValue nat
  | PrimValue nat
  | TokenArray "string list"
  | TokenValue string
  | SpecifierValue
  | IntArray
  | FloatValue
  | Vec3fArray
  | Vec3fValue
  | BoolValue
  | VariabilityValue
  | DictionaryValue "(string \<times> string) list"
  | OtherValue

record UsdAttribute =
  attId :: nat
  attName :: string
  attValue :: UsdValue
  frames :: nat
  qualifiers :: "string list"
  attMetadata :: "(string \<times> string) list"
  valueTypeStr :: string

text \<open>
  The value of a metadata entry of a prim, by what \<open>typeof\<close> says of it. A prim is the
  value of an entry named \<open>inherits\<close>; under another name it is an object whose properties
  are not strings, and the model interns none of them.
\<close>

datatype MetaValue =
    MetaPrim nat
  | MetaObject "(string \<times> string) list"
  | MetaString string
  | MetaNumber
  | MetaBoolean
  | MetaOther

datatype UsdPrim =
  UsdPrim (primId: nat) (primName: string) (classType: string)
    (metadata: "(string \<times> MetaValue) list") (children: "UsdPrim list")
    (attributes: "UsdAttribute list")

record Heap =
  primPathIndex :: "nat \<Rightarrow> int"
  attPathIndex :: "nat \<Rightarrow> int"

definition newHeap :: Heap where
  "newHeap = \<lparr> primPathIndex = (\<lambda>_. 0), attPathIndex = (\<lambda>_. - 1) \<rparr>"

definition isConnection :: "UsdAttribute \<Rightarrow> bool" where
  "isConnection a = (case attValue a of AttributeValue _ \<Rightarrow> True | _ \<Rightarrow> False)"

definition isRelationship :: "UsdAttribute \<Rightarrow> bool" where
  "isRelationship a = (case attValue a of PrimValue _ \<Rightarrow> True | _ \<Rightarrow> False)"

text \<open>
  \<open>UsdAttribute.getPathJump\<close>: \<open>-2\<close> for the last attribute of its parent, else 0. The
  attributes of the parent are an argument.
\<close>

definition UsdAttribute_getPathJump :: "UsdAttribute list \<Rightarrow> UsdAttribute \<Rightarrow> int" where
  "UsdAttribute_getPathJump parentAttributes a =
     (if parentAttributes \<noteq> [] \<and> attId (last parentAttributes) = attId a then - 2 else 0)"

text \<open>
  \<open>UsdPrim.updatePathIndices\<close>: the prim takes \<open>pathIndex2\<close>, the children are numbered
  from \<open>pathIndex2 + 1\<close> on, and every attribute takes the index of the prim and moves the
  counter by one.
\<close>

primrec updateAttributes :: "nat \<Rightarrow> UsdAttribute list \<Rightarrow> int \<Rightarrow> Heap \<Rightarrow> Heap \<times> int" where
  "updateAttributes this [] pathIndex2 h = (h, pathIndex2)"
| "updateAttributes this (att # atts) pathIndex2 h =
     updateAttributes this atts (pathIndex2 + 1)
       (h\<lparr>attPathIndex := (attPathIndex h)(attId att := primPathIndex h this)\<rparr>)"

fun UsdPrim_updatePathIndices :: "UsdPrim \<Rightarrow> int \<Rightarrow> Heap \<Rightarrow> Heap \<times> int"
  and updateChildren :: "UsdPrim list \<Rightarrow> int \<Rightarrow> Heap \<Rightarrow> Heap \<times> int" where
  "UsdPrim_updatePathIndices (UsdPrim this nm ct md chs atts) pathIndex2 h =
     (let h1 = h\<lparr>primPathIndex := (primPathIndex h)(this := pathIndex2)\<rparr>;
          (h2, pathIndex3) = updateChildren chs (pathIndex2 + 1) h1
      in updateAttributes this atts pathIndex3 h2)"
| "updateChildren [] pathIndex2 h = (h, pathIndex2)"
| "updateChildren (child # chs) pathIndex2 h =
     (let (h1, pathIndex3) = UsdPrim_updatePathIndices child pathIndex2 h
      in updateChildren chs pathIndex3 h1)"

text \<open>
  \<open>UsdData.updatePathIndices\<close>: the children of the root are numbered from 1 on; the root
  itself and its attributes are not touched.
\<close>

definition UsdData_updatePathIndices :: "UsdPrim \<Rightarrow> Heap \<Rightarrow> Heap" where
  "UsdData_updatePathIndices usdData h = fst (updateChildren (children usdData) 1 h)"

fun countItems :: "UsdPrim \<Rightarrow> nat" where
  "countItems (UsdPrim this nm ct md chs atts) =
     length atts + length chs + sum_list (map countItems chs)"

text \<open>
  \<open>UsdPrim.getPathJump\<close>. \<open>hasSibling\<close> looks at the parent: it is computed where the
  parent is at hand, by \<open>hasSiblingIn\<close>, and is false for the root, which has no parent.
\<close>

definition hasSiblingIn :: "UsdPrim list \<Rightarrow> UsdAttribute list \<Rightarrow> UsdPrim \<Rightarrow> bool" where
  "hasSiblingIn parentChildren parentAttributes p =
     (primId (last parentChildren) \<noteq> primId p \<or> parentAttributes \<noteq> [])"

definition UsdPrim_getPathJump :: "bool \<Rightarrow> UsdPrim \<Rightarrow> int" where
  "UsdPrim_getPathJump hasSibling p =
     (let hasChild = (children p \<noteq> [] \<or> attributes p \<noteq> [])
      in if hasSibling \<and> hasChild then int (countItems p) + 1
         else if hasSibling then 0
         else if hasChild then - 1
         else - 2)"

section \<open>Crate writer: the tables\<close>

text \<open>
  The part of \<open>CrateFile\<close> that the path table depends on: the token table (\<open>tokenMap\<close> is
  the index of a token in \<open>tokens\<close>), \<open>strings\<close>, \<open>paths\<close> and \<open>specs\<close>, and of \<open>fsets\<close> its
  length. The bytes of the file, \<open>fields\<close> and \<open>reps\<close> are not modelled: no table reads
  them. A field set under construction is the number of its fields.
\<close>

record CrateFile =
  tokens :: "string list"
  strings :: "nat list"
  fsetsLength :: nat
  paths :: "(int \<times> int \<times> int) list"
  specs :: "(nat \<times> nat \<times> SpecType) list"

definition newCrateFile :: CrateFile where
  "newCrateFile = \<lparr> tokens = [], strings = [], fsetsLength = 0, paths = [], specs = [] \<rparr>"

fun indexOf :: "'a \<Rightarrow> 'a list \<Rightarrow> nat option" where
  "indexOf x [] = None"
| "indexOf x (y # ys) = (if x = y then Some 0 else map_option Suc (indexOf x ys))"

definition getTokenIndex :: "string \<Rightarrow> CrateFile \<Rightarrow> nat \<times> CrateFile" where
  "getTokenIndex token c =
     (case indexOf token (tokens c) of
        Some tmp2 \<Rightarrow> (tmp2, c)
      | None \<Rightarrow> (length (tokens c), c\<lparr>tokens := tokens c @ [token]\<rparr>))"

definition getStringIndex :: "string \<Rightarrow> CrateFile \<Rightarrow> nat \<times> CrateFile" where
  "getStringIndex str c =
     (let (tokenIndex, c1) = getTokenIndex str c
      in case indexOf tokenIndex (strings c1) of
           Some i \<Rightarrow> (i, c1)
         | None \<Rightarrow> (length (strings c1), c1\<lparr>strings := strings c1 @ [tokenIndex]\<rparr>))"

definition addFieldSet :: "nat \<Rightarrow> CrateFile \<Rightarrow> nat \<times> CrateFile" where
  "addFieldSet fset c = (fsetsLength c, c\<lparr>fsetsLength := fsetsLength c + fset + 1\<rparr>)"

text \<open>
  \<open>token.replace(/"/g, '')\<close>.
\<close>

definition unquote :: "string \<Rightarrow> string" where
  "unquote s = filter (\<lambda>ch. ch \<noteq> CHR 0x22) s"

text \<open>
  The \<open>addField...\<close> family. Each interns the name of the field, and the tokens or strings
  of its data where it has some; the rest of its work goes to the file and to \<open>reps\<close>.
\<close>

definition addFieldTokens :: "string \<Rightarrow> string list \<Rightarrow> CrateFile \<Rightarrow> CrateFile" where
  "addFieldTokens field data c =
     foldl (\<lambda>c token. snd (getTokenIndex (unquote token) c)) (snd (getTokenIndex field c)) data"

definition addFieldToken :: "string \<Rightarrow> string \<Rightarrow> CrateFile \<Rightarrow> CrateFile" where
  "addFieldToken field data c = snd (getTokenIndex (unquote data) (snd (getTokenIndex field c)))"

definition addFieldTokenVector :: "string \<Rightarrow> string list \<Rightarrow> CrateFile \<Rightarrow> CrateFile" where
  "addFieldTokenVector field toks c =
     foldl (\<lambda>c token. snd (getTokenIndex (unquote token) c)) (snd (getTokenIndex field c)) toks"

definition addFieldPathListOp :: "string \<Rightarrow> int \<Rightarrow> CrateFile \<Rightarrow> CrateFile" where
  "addFieldPathListOp field pathIndex c = snd (getTokenIndex field c)"

definition addFieldPathVector :: "string \<Rightarrow> int \<Rightarrow> CrateFile \<Rightarrow> CrateFile" where
  "addFieldPathVector field pathIndex c = snd (getTokenIndex field c)"

definition addFieldSpecifier :: "string \<Rightarrow> CrateFile \<Rightarrow> CrateFile" where
  "addFieldSpecifier field c = snd (getTokenIndex field c)"

definition addFieldInts :: "string \<Rightarrow> CrateFile \<Rightarrow> CrateFile" where
  "addFieldInts field c = snd (getTokenIndex field c)"

definition addFieldFloat :: "string \<Rightarrow> CrateFile \<Rightarrow> CrateFile" where
  "addFieldFloat field c = snd (getTokenIndex field c)"

definition addFieldVectors :: "string \<Rightarrow> CrateFile \<Rightarrow> CrateFile" where
  "addFieldVectors field c = snd (getTokenIndex field c)"

definition addFieldVector :: "string \<Rightarrow> CrateFile \<Rightarrow> CrateFile" where
  "addFieldVector field c = snd (getTokenIndex field c)"

definition addFieldBool :: "string \<Rightarrow> CrateFile \<Rightarrow> CrateFile" where
  "addFieldBool field c = snd (getTokenIndex field c)"

definition addFieldVariability :: "string \<Rightarrow> CrateFile \<Rightarrow> CrateFile" where
  "addFieldVariability field c = snd (getTokenIndex field c)"

definition addFieldDictionary :: "string \<Rightarrow> (string \<times> string) list \<Rightarrow> CrateFile \<Rightarrow> CrateFile" where
  "addFieldDictionary field data c =
     foldl (\<lambda>c (key, val). snd (getStringIndex val (snd (getStringIndex key c))))
       (snd (getTokenIndex field c)) data"

definition addFieldTimeSamples :: "string \<Rightarrow> CrateFile \<Rightarrow> CrateFile" where
  "addFieldTimeSamples field c = snd (getTokenIndex field c)"

text \<open>
  \<open>addField\<close>: by the type of the value, \<open>Unknown type\<close> for a type it does not know.
\<close>

definition addField :: "string \<Rightarrow> UsdValue \<Rightarrow> CrateFile \<Rightarrow> error + CrateFile" where
  "addField field v c =
     (case v of
        TokenArray data \<Rightarrow> Inr (addFieldTokens field data c)
      | TokenValue data \<Rightarrow> Inr (addFieldToken field data c)
      | SpecifierValue \<Rightarrow> Inr (addFieldSpecifier field c)
      | IntArray \<Rightarrow> Inr (addFieldInts field c)
      | FloatValue \<Rightarrow> Inr (addFieldFloat field c)
      | Vec3fArray \<Rightarrow> Inr (addFieldVectors field c)
      | Vec3fValue \<Rightarrow> Inr (addFieldVector field c)
      | BoolValue \<Rightarrow> Inr (addFieldBool field c)
      | VariabilityValue \<Rightarrow> Inr (addFieldVariability field c)
      | DictionaryValue data \<Rightarrow> Inr (addFieldDictionary field data c)
      | _ \<Rightarrow> Inl UnknownType)"

text \<open>
  \<open>addPath\<close>: the token is multiplied by \<open>-1\<close> when the argument \<open>prim\<close> is true.
\<close>

definition addPath :: "int \<Rightarrow> int \<Rightarrow> int \<Rightarrow> bool \<Rightarrow> CrateFile \<Rightarrow> CrateFile" where
  "addPath path token jump prim c =
     c\<lparr>paths := paths c @ [(path, if prim then token * (- 1) else token, jump)]\<rparr>"

definition addSpec :: "nat \<Rightarrow> SpecType \<Rightarrow> CrateFile \<Rightarrow> nat \<times> CrateFile" where
  "addSpec fset sType c =
     (length (specs c), c\<lparr>specs := specs c @ [(length (specs c), fset, sType)]\<rparr>)"

text \<open>
  The loop over the qualifiers of an attribute; the state is the number of fields pushed
  to \<open>fset\<close> and the writer.
\<close>

definition qualifierField :: "nat \<times> CrateFile \<Rightarrow> string \<Rightarrow> nat \<times> CrateFile" where
  "qualifierField s q =
     (if q = ''uniform'' then (fst s + 1, addFieldVariability ''variability'' (snd s))
      else if q = ''custom'' then (fst s + 1, addFieldBool ''custom'' (snd s))
      else s)"

definition writeUsdConnection ::
  "UsdAttribute list \<Rightarrow> UsdAttribute \<Rightarrow> nat \<Rightarrow> Heap \<Rightarrow> CrateFile \<Rightarrow> Heap \<times> CrateFile" where
  "writeUsdConnection parentAttributes usdAtt target h c =
     (let pathIndex = attPathIndex h target;
          s1 = (1, addFieldToken ''typeName'' ''token'' c);
          s2 = foldl qualifierField s1 (qualifiers usdAtt);
          c3 = addFieldPathListOp ''connectionPaths'' pathIndex (snd s2);
          c4 = addFieldPathVector ''connectionChildren'' pathIndex c3;
          (fsetIndex, c5) = addFieldSet (fst s2 + 2) c4;
          (specIndex, c6) = addSpec fsetIndex Attribute c5;
          h' = h\<lparr>attPathIndex := (attPathIndex h)(attId usdAtt := int specIndex)\<rparr>;
          (nameToken, c7) = getTokenIndex (attName usdAtt) c6;
          pathJump = UsdAttribute_getPathJump parentAttributes usdAtt
      in (h', addPath (attPathIndex h' (attId usdAtt)) (int nameToken) pathJump True c7))"

definition writeUsdRelationship ::
  "UsdAttribute list \<Rightarrow> UsdAttribute \<Rightarrow> nat \<Rightarrow> Heap \<Rightarrow> CrateFile \<Rightarrow> Heap \<times> CrateFile" where
  "writeUsdRelationship parentAttributes usdAtt target h c =
     (let pathIndex = primPathIndex h target;
          c1 = addFieldVariability ''variability'' c;
          c2 = addFieldPathListOp ''targetPaths'' pathIndex c1;
          c3 = addFieldPathVector ''targetChildren'' pathIndex c2;
          (fsetIndex, c4) = addFieldSet 3 c3;
          (specIndex, c5) = addSpec fsetIndex Relationship c4;
          h' = h\<lparr>attPathIndex := (attPathIndex h)(attId usdAtt := int specIndex)\<rparr>;
          (nameToken, c6) = getTokenIndex (attName usdAtt) c5;
          pathJump = UsdAttribute_getPathJump parentAttributes usdAtt
      in (h', addPath (attPathIndex h' (attId usdAtt)) (int nameToken) pathJump True c6))"

definition attMetadataField :: "nat \<times> CrateFile \<Rightarrow> string \<times> string \<Rightarrow> nat \<times> CrateFile" where
  "attMetadataField s entry = (fst s + 1, addFieldToken (fst entry) (snd entry) (snd s))"

definition writeUsdAttribute ::
  "UsdAttribute list \<Rightarrow> UsdAttribute \<Rightarrow> Heap \<Rightarrow> CrateFile \<Rightarrow> error + Heap \<times> CrateFile" where
  "writeUsdAttribute parentAttributes usdAtt h c =
     (let s1 = (1, addFieldToken ''typeName'' (valueTypeStr usdAtt) c);
          s2 = foldl qualifierField s1 (qualifiers usdAtt);
          s3 = foldl attMetadataField s2 (attMetadata usdAtt)
      in case (if attValue usdAtt \<noteq> Null
               then (case addField ''default'' (attValue usdAtt) (snd s3) of
                       Inl e \<Rightarrow> Inl e
                     | Inr c4 \<Rightarrow> Inr (fst s3 + 1, c4))
               else Inr s3) of
           Inl e \<Rightarrow> Inl e
         | Inr s4 \<Rightarrow>
             (let s5 = (if frames usdAtt > 0
                        then (fst s4 + 1, addFieldTimeSamples ''timeSamples'' (snd s4))
                        else s4);
                  (fsetIndex, c6) = addFieldSet (fst s5) (snd s5);
                  (specIndex, c7) = addSpec fsetIndex Attribute c6;
                  h' = h\<lparr>attPathIndex := (attPathIndex h)(attId usdAtt := int specIndex)\<rparr>;
                  (nameToken, c8) = getTokenIndex (attName usdAtt) c7;
                  pathJump = UsdAttribute_getPathJump parentAttributes usdAtt
              in Inr (h', addPath (attPathIndex h' (attId usdAtt)) (int nameToken) pathJump True c8)))"

text \<open>
  The loop of \<open>writeUsdPrim\<close> over the attributes of the prim.
\<close>

fun writeAttributes ::
  "UsdAttribute list \<Rightarrow> UsdAttribute list \<Rightarrow> Heap \<Rightarrow> CrateFile \<Rightarrow> error + Heap \<times> CrateFile" where
  "writeAttributes parentAttributes [] h c = Inr (h, c)"
| "writeAttributes parentAttributes (attribute # atts) h c =
     (case (case attValue attribute of
              AttributeValue target \<Rightarrow>
                Inr (writeUsdConnection parentAttributes attribute target h c)
            | PrimValue target \<Rightarrow>
                Inr (writeUsdRelationship parentAttributes attribute target h c)
            | _ \<Rightarrow> writeUsdAttribute parentAttributes attribute h c) of
        Inl e \<Rightarrow> Inl e
      | Inr (h', c') \<Rightarrow> writeAttributes parentAttributes atts h' c')"

text \<open>
  The loop of \<open>writeUsdPrim\<close> over the metadata of the prim: \<open>inherits\<close> writes the
  \<open>pathIndex\<close> of the prim it names, \<open>references\<close> is not implemented, any other entry goes
  by the type of its value.
\<close>

definition metaPathIndex :: "Heap \<Rightarrow> MetaValue \<Rightarrow> int" where
  "metaPathIndex h v = (case v of MetaPrim target \<Rightarrow> primPathIndex h target | _ \<Rightarrow> 0)"

fun primMetadata ::
  "Heap \<Rightarrow> (string \<times> MetaValue) list \<Rightarrow> nat \<times> CrateFile \<Rightarrow> error + nat \<times> CrateFile" where
  "primMetadata h [] s = Inr s"
| "primMetadata h ((name, v) # md) s =
     (if name = ''inherits'' then
        primMetadata h md
          (fst s + 1, addFieldPathListOp ''inheritPaths'' (metaPathIndex h v) (snd s))
      else if name = ''references'' then Inl NotImplemented
      else
        (case v of
           MetaPrim target \<Rightarrow> primMetadata h md (fst s + 1, addFieldDictionary name [] (snd s))
         | MetaObject data \<Rightarrow> primMetadata h md (fst s + 1, addFieldDictionary name data (snd s))
         | MetaString data \<Rightarrow> primMetadata h md (fst s + 1, addFieldToken name data (snd s))
         | MetaNumber \<Rightarrow> primMetadata h md (fst s + 1, addFieldFloat name (snd s))
         | MetaBoolean \<Rightarrow> primMetadata h md (fst s + 1, addFieldBool name (snd s))
         | MetaOther \<Rightarrow> primMetadata h md s))"

text \<open>
  \<open>writeUsdPrim\<close>, and its loop over the children. The prim is written, then its
  children, then its attributes; \<open>pathIndex\<close> of the prim is assigned the index of its
  spec.
\<close>

fun writeUsdPrim :: "bool \<Rightarrow> UsdPrim \<Rightarrow> Heap \<Rightarrow> CrateFile \<Rightarrow> error + Heap \<times> CrateFile"
  and writeChildren ::
    "UsdPrim list \<Rightarrow> UsdAttribute list \<Rightarrow> UsdPrim list \<Rightarrow> Heap \<Rightarrow> CrateFile
       \<Rightarrow> error + Heap \<times> CrateFile" where
  "writeUsdPrim hasSibling (UsdPrim this nm ct md chs atts) h c =
     (let s1 = (1, addFieldSpecifier ''specifier'' c);
          s2 = (fst s1 + 1, addFieldToken ''typeName'' ct (snd s1))
      in case primMetadata h md s2 of
           Inl e \<Rightarrow> Inl e
         | Inr s3 \<Rightarrow>
             (let s4 = (if atts \<noteq> []
                        then (fst s3 + 1,
                              addFieldTokenVector ''properties'' (map attName atts) (snd s3))
                        else s3);
                  s5 = (if chs \<noteq> []
                        then (fst s4 + 1,
                              addFieldTokenVector ''primChildren'' (map primName chs) (snd s4))
                        else s4);
                  (fsetIndex, c6) = addFieldSet (fst s5) (snd s5);
                  (specIndex, c7) = addSpec fsetIndex Prim c6;
                  h1 = h\<lparr>primPathIndex := (primPathIndex h)(this := int specIndex)\<rparr>;
                  (nameToken, c8) = getTokenIndex nm c7;
                  pathJump = UsdPrim_getPathJump hasSibling (UsdPrim this nm ct md chs atts);
                  c9 = addPath (primPathIndex h1 this) (int nameToken) pathJump False c8
              in case writeChildren chs atts chs h1 c9 of
                   Inl e \<Rightarrow> Inl e
                 | Inr (h2, c10) \<Rightarrow> writeAttributes atts atts h2 c10))"
| "writeChildren parentChildren parentAttributes [] h c = Inr (h, c)"
| "writeChildren parentChildren parentAttributes (child # chs) h c =
     (case writeUsdPrim (hasSiblingIn parentChildren parentAttributes child) child h c of
        Inl e \<Rightarrow> Inl e
      | Inr (h', c') \<Rightarrow> writeChildren parentChildren parentAttributes chs h' c')"

text \<open>
  The loop of \<open>writeUsd\<close> over the metadata of the root: numbers, strings and booleans
  only.
\<close>

definition rootMetadataField :: "nat \<times> CrateFile \<Rightarrow> string \<times> MetaValue \<Rightarrow> nat \<times> CrateFile" where
  "rootMetadataField s entry =
     (case snd entry of
        MetaNumber \<Rightarrow> (fst s + 1, addFieldFloat (fst entry) (snd s))
      | MetaString data \<Rightarrow> (fst s + 1, addFieldToken (fst entry) data (snd s))
      | MetaBoolean \<Rightarrow> (fst s + 1, addFieldBool (fst entry) (snd s))
      | _ \<Rightarrow> s)"

text \<open>
  \<open>writeUsd\<close> up to its call of \<open>writeSections\<close>: the path indices are updated, the root is
  written as the pseudo-root with the empty name, then its children. What follows in
  \<open>writeUsd\<close> copies the tables to the file and changes none of them.
\<close>

definition writeUsd :: "UsdPrim \<Rightarrow> Heap \<Rightarrow> CrateFile \<Rightarrow> error + Heap \<times> CrateFile" where
  "writeUsd usdData h c =
     (let h0 = UsdData_updatePathIndices usdData h;
          s1 = foldl rootMetadataField (0, c) (metadata usdData);
          s2 = (if children usdData \<noteq> []
                then (fst s1 + 1,
                      addFieldTokenVector ''primChildren'' (map primName (children usdData)) (snd s1))
                else s1);
          (fsetIndex, c3) = addFieldSet (fst s2) (snd s2);
          (specIndex, c4) = addSpec fsetIndex PseudoRoot c3;
          h1 = h0\<lparr>primPathIndex := (primPathIndex h0)(primId usdData := int specIndex)\<rparr>;
          (nameToken, c5) = getTokenIndex '''' c4;
          pathJump = UsdPrim_getPathJump False usdData;
          c6 = addPath (primPathIndex h1 (primId usdData)) (int nameToken) pathJump False c5
      in writeChildren (children usdData) (attributes usdData) (children usdData) h1 c6)"

section \<open>The nodes of a scene tree in writing order\<close>

text \<open>
  The statements about the tables speak of the nodes in the order in which \<open>writeUsd\<close>
  writes them: a prim, then the nodes of its children, then its attributes. A node is a
  prim (identifier, name, type of its spec) or a property (identifier, identifier of the
  parent prim, name, type of its spec). A connection is written with the spec type
  \<open>Attribute\<close>. The attributes of the root are not written.
\<close>

datatype Node = PrimNode nat string SpecType | PropertyNode nat nat string SpecType

definition attNode :: "nat \<Rightarrow> UsdAttribute \<Rightarrow> Node" where
  "attNode this a =
     PropertyNode (attId a) this (attName a) (if isRelationship a then Relationship else Attribute)"

fun primNodes :: "UsdPrim \<Rightarrow> Node list" where
  "primNodes (UsdPrim this nm ct md chs atts) =
     PrimNode this nm Prim # concat (map primNodes chs) @ map (attNode this) atts"

definition usdNodes :: "UsdPrim \<Rightarrow> Node list" where
  "usdNodes usdData =
     PrimNode (primId usdData) '''' PseudoRoot # concat (map primNodes (children usdData))"


fun nodeName :: "Node \<Rightarrow> string" where
  "nodeName (PrimNode r nm ty) = nm"
| "nodeName (PropertyNode a parent nm ty) = nm"

fun nodeType :: "Node \<Rightarrow> SpecType" where
  "nodeType (PrimNode r nm ty) = ty"
| "nodeType (PropertyNode a parent nm ty) = ty"

fun isProperty :: "Node \<Rightarrow> bool" where
  "isProperty (PrimNode r nm ty) = False"
| "isProperty (PropertyNode a parent nm ty) = True"


fun setNodeIndex :: "Node \<Rightarrow> int \<Rightarrow> Heap \<Rightarrow> Heap" where
  "setNodeIndex (PrimNode r nm ty) v h = h\<lparr>primPathIndex := (primPathIndex h)(r := v)\<rparr>"
| "setNodeIndex (PropertyNode a parent nm ty) v h = h\<lparr>attPathIndex := (attPathIndex h)(a := v)\<rparr>"

text \<open>
  The token of a path entry against the node it stands for: the index of the name of a
  prim in the token table, and minus the index of the name of a property.
\<close>

definition tokenOf :: "string list \<Rightarrow> Node \<Rightarrow> int \<Rightarrow> bool" where
  "tokenOf toks n t =
     (if isProperty n then t \<le> 0 \<and> nat (- t) < length toks \<and> toks ! nat (- t) = nodeName n
      else 0 \<le> t \<and> nat t < length toks \<and> toks ! nat t = nodeName n)"

text \<open>
  Devices of the proofs. A step that interns tokens leaves \<open>paths\<close> and \<open>specs\<close> alone and
  adds to the end of the token table; the four lines that end every \<open>writeUsd...\<close>
  function; the writing of one node, and of a list of nodes one after the other.
\<close>

definition keepsTables :: "CrateFile \<Rightarrow> CrateFile \<Rightarrow> bool" where
  "keepsTables c c' \<longleftrightarrow>
     paths c' = paths c \<and> specs c' = specs c \<and> (\<exists>ext. tokens c' = tokens c @ ext)"

definition specAndPath ::
  "nat \<Rightarrow> SpecType \<Rightarrow> string \<Rightarrow> int \<Rightarrow> bool \<Rightarrow> CrateFile \<Rightarrow> nat \<times> CrateFile" where
  "specAndPath fset sType nm pathJump prim c =
     (let (fsetIndex, c1) = addFieldSet fset c;
          (specIndex, c2) = addSpec fsetIndex sType c1;
          (nameToken, c3) = getTokenIndex nm c2
      in (specIndex, addPath (int specIndex) (int nameToken) pathJump prim c3))"

definition nodeWritten :: "Node \<Rightarrow> Heap \<Rightarrow> CrateFile \<Rightarrow> Heap \<Rightarrow> CrateFile \<Rightarrow> bool" where
  "nodeWritten n h c h' c' \<longleftrightarrow>
     h' = setNodeIndex n (int (length (specs c))) h \<and>
     (\<exists>k j f ext.
        paths c' = paths c @ [(int (length (specs c)), (if isProperty n then - int k else int k), j)]
        \<and> specs c' = specs c @ [(length (specs c), f, nodeType n)]
        \<and> tokens c' = tokens c @ ext \<and> k < length (tokens c') \<and> tokens c' ! k = nodeName n)"

fun nodesWritten :: "Node list \<Rightarrow> Heap \<Rightarrow> CrateFile \<Rightarrow> Heap \<Rightarrow> CrateFile \<Rightarrow> bool" where
  "nodesWritten [] h c h' c' \<longleftrightarrow> h' = h \<and> keepsTables c c'"
| "nodesWritten (n # ns) h c h' c' \<longleftrightarrow>
     (\<exists>h1 c1. nodeWritten n h c h1 c1 \<and> nodesWritten ns h1 c1 h' c')"

text \<open>
  The tables after the nodes \<open>ns\<close> have been written: the \<open>i\<close>-th path and the \<open>i\<close>-th
  spec have the index \<open>i\<close>, the spec has the type of the \<open>i\<close>-th node, and the path has
  its token.
\<close>

definition tablesFor :: "Node list \<Rightarrow> CrateFile \<Rightarrow> bool" where
  "tablesFor ns c \<longleftrightarrow>
     map fst (paths c) = map int [0..<length ns]
     \<and> map fst (specs c) = [0..<length ns]
     \<and> map (snd \<circ> snd) (specs c) = map nodeType ns
     \<and> list_all2 (tokenOf (tokens c)) ns (map (fst \<circ> snd) (paths c))"

text \<open>
  A small scene: the root, a prim \<open>a\<close> under it, and an attribute \<open>x\<close> of \<open>a\<close>.
\<close>

definition sceneX :: UsdPrim where
  "sceneX =
     UsdPrim 0 [] []  []
       [UsdPrim 1 ''a'' ''Xform'' []  []
          [\<lparr>attId = 0, attName = ''x'', attValue = FloatValue, frames = 0, qualifiers = [],
            attMetadata = [], valueTypeStr = ''float''\<rparr>]]
       []"






section \<open>Properties\<close>

subsection \<open>Little-endian fields\<close>

lemma length_le32 [simp]: "length (le32 w) = 4"
  by (simp add: le32_def)

lemma length_le16 [simp]: "length (le16 w) = 2"
  by (simp add: le16_def)

lemma nat_bytes4:
  assumes "n < 2 ^ 32"
  shows "n mod 256 + 256 * (n div 256 mod 256 + 256 * (n div 65536 mod 256 + 256 * (n div 16777216 mod 256))) = (n::nat)"
proof -
  have q2: "n div 65536 = n div 256 div 256"
    by (simp add: div_mult2_eq [symmetric])
  have q3: "n div 16777216 = n div 256 div 256 div 256"
    by (simp add: div_mult2_eq [symmetric])
  have s: "n div 256 div 256 div 256 < 256"
    using assms by (simp add: div_mult2_eq [symmetric] less_mult_imp_div_less)
  have e: "\<And>m::nat. m mod 256 + 256 * (m div 256) = m"
    by simp
  have "n div 256 div 256 mod 256 + 256 * (n div 256 div 256 div 256 mod 256) = n div 256 div 256"
    using s e [of "n div 256 div 256"] by simp
  then have "n div 256 mod 256 + 256 * (n div 256 div 256 mod 256 + 256 * (n div 256 div 256 div 256 mod 256)) = n div 256"
    using e [of "n div 256"] by simp
  then show ?thesis
    unfolding q2 q3 using e [of n] by simp
qed

lemma leNat_le32: "leNat (le32 w) = unat w"
proof -
  have "unat w < 2 ^ 32"
    using unsigned_less [of w, where 'a = nat] by simp
  then have "unat w div 16777216 mod 256 = unat w div 16777216"
    by simp
  with nat_bytes4 [OF \<open>unat w < 2 ^ 32\<close>] show ?thesis
    unfolding leNat_def le32_def
    by (simp add: unsigned_ucast_eq unat_drop_bit_eq take_bit_eq_mod drop_bit_eq_div unat_div)
qed

lemma leNat_le16: "leNat (le16 w) = unat w"
proof -
  have "unat w < 2 ^ 16"
    using unsigned_less [of w, where 'a = nat] by simp
  then have "unat w div 256 < 256" by simp
  then show ?thesis
    unfolding leNat_def le16_def
    by (simp add: unsigned_ucast_eq unat_drop_bit_eq take_bit_eq_mod drop_bit_eq_div unat_div)
qed

subsection \<open>The 8-byte signed writer\<close>

text \<open>
  For a negative value the second store of \<open>writeInt\<close> lands at offset 1, not 4: of
  the first store only the lowest byte survives, bytes 1 to 4 are \<open>0xFF\<close> and bytes
  5 to 7 stay 0.
\<close>

lemma replicate_8: "replicate 8 (x::'a) = [x, x, x, x, x, x, x, x]"
  by (simp add: numeral_eq_Suc)

lemma le32_minus_one: "le32 (-1) = [0xFF, 0xFF, 0xFF, 0xFF]"
  by code_simp

lemma writeIntBytes_signed8_negative:
  "v < 0 \<Longrightarrow>
   writeIntBytes v 8 True = [ucast (word_of_int v :: 32 word), 0xFF, 0xFF, 0xFF, 0xFF, 0, 0, 0]"
  unfolding writeIntBytes_def Let_def replicate_8 setInt32_def
  by (simp add: le32_minus_one store_def) (simp add: le32_def)

text \<open>
  C4 (the claim: for every \<open>-2^31 \<le> v < 0\<close>, \<open>writeInt(file, v, 8, signed=true)\<close> appends
  the 8-byte little-endian two's complement of \<open>v\<close>, the upper four bytes all \<open>0xFF\<close>).
  The code at \<open>v = -1\<close>: the block appended is \<open>FF FF FF FF FF 00 00 00\<close>, whose upper
  four bytes are \<open>FF 00 00 00\<close>; the encoding of -1 is eight bytes \<open>FF\<close>.
\<close>

theorem writeInt_signed8_minus_one:
  "buffers (writeInt newByteArray (-1) 8 True) = [[0xFF, 0xFF, 0xFF, 0xFF, 0xFF, 0, 0, 0]]"
  by code_simp

text \<open>
  At \<open>v = -257\<close> the low four bytes are lost as well: the block is the same as for -1,
  where the encoding of -257 starts \<open>FF FE FF FF\<close>.
\<close>

lemma writeInt_signed8_minus_257:
  "buffers (writeInt newByteArray (-257) 8 True) = [[0xFF, 0xFF, 0xFF, 0xFF, 0xFF, 0, 0, 0]]"
  by code_simp

subsection \<open>LZ4: the empty input\<close>

text \<open>
  C10: applied to the empty byte sequence, \<open>lz4Compress\<close> returns an empty byte array:
  no padding byte is prepended and no error is raised. This holds for an empty array
  anywhere in any buffer.
\<close>

theorem lz4Compress_empty:
  "lz4Compress \<lparr>bytesBefore = bs1, elements = [], bytesAfter = bs2\<rparr> = Inr []"
  by (simp add: lz4Compress_def)

subsection \<open>USDZ container\<close>

lemma usdzExtraSize_eq: "usdzExtraSize = 22"
  by (simp add: usdzExtraSize_def usdzName_def)

lemma replicate_64:
  "replicate 64 (x::'a) =
     [x,x,x,x,x,x,x,x,x,x,x,x,x,x,x,x,x,x,x,x,x,x,x,x,x,x,x,x,x,x,x,x,
      x,x,x,x,x,x,x,x,x,x,x,x,x,x,x,x,x,x,x,x,x,x,x,x,x,x,x,x,x,x,x,x]"
  by (simp add: numeral_eq_Suc)

lemma usdzPre_eq:
  "usdzPre n =
     [0x50, 0x4b, 0x03, 0x04, 20, 0, 0, 0, 0, 0, 0, 0, 0, 0, 0, 0, 0, 0]
       @ le32 (word_of_nat n) @ le32 (word_of_nat n)
       @ [8, 0, 26, 0, 0x74, 0x6d, 0x70, 0x2e, 0x75, 0x73, 0x64, 0x63, 1, 0, 22, 0]
       @ replicate 22 0"
  unfolding usdzPre_def usdzExtraSize_eq Let_def
  apply (simp add: usdzName_def replicate_64 store_def setUint16_def setUint32_def le16_def)
  apply (simp add: numeral_eq_Suc)
  done

lemma length_usdzPre: "length (usdzPre n) = 64"
  by (simp add: usdzPre_eq)

lemma usdzPre_fields:
  assumes "n < 2 ^ 32"
  shows "fieldAt (usdzPre n) 18 4 = n" and "fieldAt (usdzPre n) 22 4 = n"
    and "fieldAt (usdzPre n) 26 2 = 8" and "fieldAt (usdzPre n) 28 2 = 26"
    and "take 8 (drop 30 (usdzPre n)) = usdzName"
proof -
  have u: "unat (word_of_nat n :: 32 word) = n"
    using assms by (simp add: unat_of_nat)
  show "fieldAt (usdzPre n) 18 4 = n"
    by (simp add: usdzPre_eq fieldAt_def leNat_le32 u)
  show "fieldAt (usdzPre n) 22 4 = n"
    by (simp add: usdzPre_eq fieldAt_def leNat_le32 u)
  show "fieldAt (usdzPre n) 26 2 = 8"
    by (simp add: usdzPre_eq fieldAt_def leNat_def)
  show "fieldAt (usdzPre n) 28 2 = 26"
    by (simp add: usdzPre_eq fieldAt_def leNat_def)
  show "take 8 (drop 30 (usdzPre n)) = usdzName"
    by (simp add: usdzPre_eq usdzName_def)
qed

lemma fieldAt_append_left:
  "off + n \<le> length a \<Longrightarrow> fieldAt (a @ b) off n = fieldAt a off n"
  by (simp add: fieldAt_def)

lemma getUsdzFromUsdc_eq:
  "getUsdzFromUsdc usdc =
     usdzPre (length (concat (getBuffers usdc))) @ concat (getBuffers usdc)
       @ usdzPost 64 (length (concat (getBuffers usdc)))"
  by (simp add: getUsdzFromUsdc_def Let_def length_concat length_usdzPre)

lemma usdzPost_eq:
  "usdzPost pl n =
     [0x50, 0x4B, 0x01, 0x02, 62, 0, 20, 0, 0, 0, 0, 0, 0, 0, 0, 0, 0, 0, 0, 0]
       @ le32 (word_of_nat n) @ le32 (word_of_nat n)
       @ [8, 0, 0, 0, 0, 0, 0, 0, 0, 0, 0, 0, 0, 0, 0, 0, 0, 0,
          0x74, 0x6d, 0x70, 0x2e, 0x75, 0x73, 0x64, 0x63,
          0x50, 0x4B, 0x05, 0x06, 0, 0, 0, 0, 1, 0, 1, 0]
       @ le32 54 @ le32 (word_of_nat (pl + n)) @ [0, 0]"
  unfolding usdzPost_def Let_def
  apply (simp add: usdzName_def store_def setUint16_def setUint32_def le16_def)
  apply (simp add: numeral_eq_Suc)
  done

lemma length_usdzPost: "length (usdzPost pl n) = 76"
  by (simp add: usdzPost_eq)

lemma usdzPost_fields:
  assumes "n < 2 ^ 32"
  shows "take 4 (usdzPost pl n) = [0x50, 0x4B, 0x01, 0x02]"
    and "fieldAt (usdzPost pl n) 20 4 = n" and "fieldAt (usdzPost pl n) 24 4 = n"
    and "fieldAt (usdzPost pl n) 28 2 = 8"
    and "take 8 (drop 46 (usdzPost pl n)) = usdzName"
proof -
  have u: "unat (word_of_nat n :: 32 word) = n"
    using assms by (simp add: unat_of_nat)
  show "take 4 (usdzPost pl n) = [0x50, 0x4B, 0x01, 0x02]"
    by (simp add: usdzPost_eq)
  show "fieldAt (usdzPost pl n) 20 4 = n"
    by (simp add: usdzPost_eq fieldAt_def leNat_le32 u)
  show "fieldAt (usdzPost pl n) 24 4 = n"
    by (simp add: usdzPost_eq fieldAt_def leNat_le32 u)
  show "fieldAt (usdzPost pl n) 28 2 = 8"
    by (simp add: usdzPost_eq fieldAt_def leNat_def)
  show "take 8 (drop 46 (usdzPost pl n)) = usdzName"
    by (simp add: usdzPost_eq usdzName_def)
qed

lemma fieldAt_append_right:
  "fieldAt (a @ b) (length a + off) n = fieldAt b off n"
  by (simp add: fieldAt_def)

text \<open>
  C7: in the archive built from the sink of \<open>tmp.usdc\<close> (\<open>exportUsdz\<close> returns
  \<open>getUsdzFromUsdc\<close> of the sink that \<open>writeUsd\<close> filled), a reader finds in the local
  header the name length 8 and the name, the extra-field length \<open>extraSize + 4\<close> with
  \<open>extraSize = 64 - ((34 + nameLen) mod 64)\<close>, and both sizes equal to the payload length;
  the payload starts after the 30 fixed bytes, the name and the extra field, at an offset
  divisible by 64. Right after the payload comes the central directory, whose single
  entry carries the same name and again records both sizes equal to the payload length,
  and nothing follows the payload but the central directory and the 22-byte end record.
  The size fields have four bytes: the payload is shorter than \<open>2^32\<close> bytes.
\<close>

theorem getUsdzFromUsdc_layout:
  assumes "length (concat (getBuffers usdc)) < 2 ^ 32"
  shows "let usdz = getUsdzFromUsdc usdc;
             payload = concat (getBuffers usdc);
             nameLen = fieldAt usdz 26 2;
             extraLen = fieldAt usdz 28 2;
             offset = 30 + nameLen + extraLen;
             cd = offset + length payload
         in take nameLen (drop 30 usdz) = usdzName
            \<and> offset mod 64 = 0
            \<and> take (length payload) (drop offset usdz) = payload
            \<and> extraLen = (64 - (34 + nameLen) mod 64) + 4
            \<and> fieldAt usdz 18 4 = length payload
            \<and> fieldAt usdz 22 4 = length payload
            \<and> take 4 (drop cd usdz) = [0x50, 0x4B, 0x01, 0x02]
            \<and> fieldAt usdz (cd + 20) 4 = length payload
            \<and> fieldAt usdz (cd + 24) 4 = length payload
            \<and> take (fieldAt usdz (cd + 28) 2) (drop (cd + 46) usdz) = usdzName
            \<and> length usdz = cd + 46 + nameLen + 22"
proof -
  let ?payload = "concat (getBuffers usdc)"
  let ?n = "length ?payload"
  let ?usdz = "getUsdzFromUsdc usdc"
  let ?post = "usdzPost 64 ?n"
  have usdz: "?usdz = usdzPre ?n @ (?payload @ ?post)"
    by (simp add: getUsdzFromUsdc_eq)
  have f18: "fieldAt ?usdz 18 4 = ?n" and f22: "fieldAt ?usdz 22 4 = ?n"
    and f26: "fieldAt ?usdz 26 2 = 8" and f28: "fieldAt ?usdz 28 2 = 26"
    unfolding usdz
    by (simp_all add: fieldAt_append_left length_usdzPre usdzPre_fields [OF assms])
  have name: "take 8 (drop 30 ?usdz) = usdzName"
    unfolding usdz by (simp add: length_usdzPre usdzPre_fields [OF assms])
  have payload: "take ?n (drop 64 ?usdz) = ?payload"
    unfolding usdz by (simp add: length_usdzPre)
  have split: "?usdz = (usdzPre ?n @ ?payload) @ ?post"
    by (simp add: usdz)
  have l: "length (usdzPre ?n @ ?payload) = 64 + ?n"
    by (simp add: length_usdzPre)
  have at: "fieldAt ?usdz (64 + ?n + off) k = fieldAt ?post off k" for off k
    unfolding split using fieldAt_append_right [of "usdzPre ?n @ ?payload" ?post off k]
    by (simp only: l)
  have rest: "drop (64 + ?n + off) ?usdz = drop off ?post" for off
    unfolding split by (simp add: length_usdzPre)
  have c20: "fieldAt ?usdz (64 + ?n + 20) 4 = ?n" and c24: "fieldAt ?usdz (64 + ?n + 24) 4 = ?n"
    and c28: "fieldAt ?usdz (64 + ?n + 28) 2 = 8"
    by (simp_all only: at usdzPost_fields [OF assms])
  have sig: "take 4 (drop (64 + ?n) ?usdz) = [0x50, 0x4B, 0x01, 0x02]"
    using rest [of 0] usdzPost_fields(1) [OF assms, of 64] by simp
  have cname: "take 8 (drop (64 + ?n + 46) ?usdz) = usdzName"
    by (simp only: rest usdzPost_fields [OF assms])
  have len: "length ?usdz = 64 + ?n + 46 + 8 + 22"
    unfolding usdz by (simp add: length_usdzPre length_usdzPost)
  have o: "30 + (8::nat) + 26 = 64" by simp
  show ?thesis
    unfolding Let_def f26 f28 o c28
    using name payload f18 f22 sig c20 c24 cname len by simp
qed

theorem getUsdzFromUsdc_layout_witness:
  "length (concat (getBuffers \<lparr>pos = 3, buffers = [[1, 2], [3]]\<rparr>)) < 2 ^ 32
   \<and> (let usdz = getUsdzFromUsdc \<lparr>pos = 3, buffers = [[1, 2], [3]]\<rparr>;
             payload = concat (getBuffers \<lparr>pos = 3, buffers = [[1, 2], [3]]\<rparr>);
             nameLen = fieldAt usdz 26 2;
             extraLen = fieldAt usdz 28 2;
             offset = 30 + nameLen + extraLen;
             cd = offset + length payload
         in take nameLen (drop 30 usdz) = usdzName
            \<and> offset mod 64 = 0
            \<and> take (length payload) (drop offset usdz) = payload
            \<and> extraLen = (64 - (34 + nameLen) mod 64) + 4
            \<and> fieldAt usdz 18 4 = length payload
            \<and> fieldAt usdz 22 4 = length payload
            \<and> take 4 (drop cd usdz) = [0x50, 0x4B, 0x01, 0x02]
            \<and> fieldAt usdz (cd + 20) 4 = length payload
            \<and> fieldAt usdz (cd + 24) 4 = length payload
            \<and> take (fieldAt usdz (cd + 28) 2) (drop (cd + 46) usdz) = usdzName
            \<and> length usdz = cd + 46 + nameLen + 22)"
proof -
  have h: "length (concat (getBuffers \<lparr>pos = 3, buffers = [[1, 2], [3]]\<rparr>)) < 2 ^ 32"
    by (simp add: getBuffers_def)
  show ?thesis
    using h getUsdzFromUsdc_layout [OF h] by blast
qed

subsection \<open>OBJ/MTL exporter\<close>

lemma natStr_digit: "n < 10 \<Longrightarrow> natStr n = [digitChar n]"
  by (subst natStr.simps) simp

text \<open>
  C9: the single red triangle with output name \<open>foo\<close>. The run time prints the numbers
  0 and 1 as \<open>0\<close> and \<open>1\<close>, and molstar gives the color \<open>#FF0000\<close> the components
  \<open>(1, 0, 0)\<close>; then \<open>exportObj\<close> returns exactly the OBJ text and the MTL text of the
  scenario, the lines separated by newline characters.
\<close>

theorem exportObj_single_triangle:
  assumes "numStr 0 = ''0''" and "numStr 1 = ''1''"
    and "toRgbNormalized 0xFF0000 = (1, 0, 0)"
  shows "exportObj numStr toRgbNormalized
           [(0xFF0000, \<lparr>positions = [(0, 0, 0), (1, 0, 0), (0, 1, 0)],
                        normals = [(0, 0, 1), (0, 0, 1), (0, 0, 1)],
                        faces = [0, 1, 2]\<rparr>)] ''foo''
         = (''mtllib foo.mtl\<newline>g m0\<newline>usemtl k0\<newline>v 0 0 0\<newline>v 1 0 0\<newline>v 0 1 0\<newline>vn 0 0 1\<newline>vn 0 0 1\<newline>vn 0 0 1\<newline>f 1//1 2//2 3//3'',
            ''newmtl k0\<newline>Ns 163\<newline>Ni 0.001\<newline>illum 2\<newline>Ka 0.20 0.20 0.20\<newline>Kd 1 0 0\<newline>Ks 0.25 0.25 0.25'')"
proof -
  have n0: "natStr 0 = ''0''" and n1: "natStr 1 = ''1''" and n2: "natStr 2 = ''2''"
    and n3: "natStr 3 = ''3''"
    by (simp_all add: natStr_digit digitChar_def)
  have f: "faceLines 1 [0, 1, 2] 0 = [''f 1//1 2//2 3//3'']"
    by (simp add: faceLines.simps [of _ _ 0] faceLines.simps [of _ _ 3] faceLine_def
          pointStr_def natStr_digit digitChar_def)
  show ?thesis
    by (simp add: exportObj_def exportObjMesh_def positionLine_def normalLine_def mtlBlock_def
          newline_def assms n0 f [simplified])
qed

theorem exportObj_single_triangle_witness:
  "(\<lambda>x::real. if x = 0 then ''0'' else ''1'') 0 = ''0''
   \<and> (\<lambda>x::real. if x = 0 then ''0'' else ''1'') 1 = ''1''
   \<and> (\<lambda>c::Color. (real (c div 65536 mod 256) / 255, real (c div 256 mod 256) / 255,
                      real (c mod 256) / 255)) 0xFF0000 = (1, 0, 0)
   \<and> exportObj (\<lambda>x::real. if x = 0 then ''0'' else ''1'')
        (\<lambda>c::Color. (real (c div 65536 mod 256) / 255, real (c div 256 mod 256) / 255,
                      real (c mod 256) / 255))
        [(0xFF0000, \<lparr>positions = [(0, 0, 0), (1, 0, 0), (0, 1, 0)],
                     normals = [(0, 0, 1), (0, 0, 1), (0, 0, 1)],
                     faces = [0, 1, 2]\<rparr>)] ''foo''
      = (''mtllib foo.mtl\<newline>g m0\<newline>usemtl k0\<newline>v 0 0 0\<newline>v 1 0 0\<newline>v 0 1 0\<newline>vn 0 0 1\<newline>vn 0 0 1\<newline>vn 0 0 1\<newline>f 1//1 2//2 3//3'',
         ''newmtl k0\<newline>Ns 163\<newline>Ni 0.001\<newline>illum 2\<newline>Ka 0.20 0.20 0.20\<newline>Kd 1 0 0\<newline>Ks 0.25 0.25 0.25'')"
proof -
  let ?numStr = "\<lambda>x::real. if x = 0 then ''0'' else ''1''"
  let ?rgb = "\<lambda>c::Color. (real (c div 65536 mod 256) / 255, real (c div 256 mod 256) / 255,
                      real (c mod 256) / 255)"
  have h0: "?numStr 0 = ''0''" and h1: "?numStr 1 = ''1''"
    by simp_all
  have h2: "?rgb 0xFF0000 = (1, 0, 0)"
    by simp
  from exportObj_single_triangle [of ?numStr ?rgb, OF h0 h1 h2] h0 h1 h2
  show ?thesis by blast
qed

lemma foldl_exportObjMesh:
  "foldl (exportObjMesh numStr toRgb) st ms =
     \<lparr>objLines = objLines st @ objBlocks numStr (refId st) (pointOffset st) ms,
      mtlLines = mtlLines st @ mtlBlocks numStr toRgb (refId st) ms,
      refId = refId st + length ms,
      pointOffset = pointOffset st + sum_list (map (\<lambda>e. length (positions (snd e))) ms)\<rparr>"
proof (induction ms arbitrary: st)
  case Nil
  show ?case by simp
next
  case (Cons e ms)
  show ?case
    apply (simp only: foldl_Cons Cons.IH)
    apply (simp add: exportObjMesh_def split: prod.split)
    done
qed

text \<open>
  C3 as the code has it: \<open>exportObj\<close> checks nothing at intake and has no failure path.
  For every mesh set, whether its meshes satisfy the invariants or not, it returns the OBJ
  text made of the \<open>mtllib\<close> line and, mesh by mesh, the \<open>g\<close> and \<open>usemtl\<close> lines, one
  \<open>v\<close> line per position, one \<open>vn\<close> line per normal and one \<open>f\<close> line per started
  triple of face indices (a face index is printed as the running offset plus the index, a
  missing one as \<open>NaN\<close>), and the MTL text with one block per color.
\<close>

theorem exportObj_accepts_every_mesh_set:
  "exportObj numStr toRgbNormalized meshByColor outName =
     (joinLines ((''mtllib '' @ outName @ ''.mtl'') # objBlocks numStr 0 1 meshByColor),
      joinLines (mtlBlocks numStr toRgbNormalized 0 meshByColor))"
  by (simp add: exportObj_def foldl_exportObjMesh)

text \<open>
  The claim C3 itself fails: a mesh with no position, one normal and the two face indices
  5 and 7 violates all three invariants, and \<open>exportObj\<close> returns its text, with the
  face line \<open>f 6//6 8//8 NaN//NaN\<close>.
\<close>

theorem exportObj_malformed_mesh_counterexample:
  "\<not> meshInvariant \<lparr>positions = [], normals = [(0, 0, 1)], faces = [5, 7]\<rparr>
   \<and> exportObj (\<lambda>x. ''0'') (\<lambda>c. (0, 0, 0))
        [(0xFF0000, \<lparr>positions = [], normals = [(0, 0, 1)], faces = [5, 7]\<rparr>)] ''foo''
      = (''mtllib foo.mtl\<newline>g m0\<newline>usemtl k0\<newline>vn 0 0 0\<newline>f 6//6 8//8 NaN//NaN'',
         ''newmtl k0\<newline>Ns 163\<newline>Ni 0.001\<newline>illum 2\<newline>Ka 0.20 0.20 0.20\<newline>Kd 0 0 0\<newline>Ks 0.25 0.25 0.25'')"
proof -
  have n0: "natStr 0 = ''0''" and n6: "natStr 6 = ''6''" and n8: "natStr 8 = ''8''"
    by (simp_all add: natStr_digit digitChar_def)
  have f: "faceLines 1 [5, 7] 0 = [''f 6//6 8//8 NaN//NaN'']"
    by (simp add: faceLines.simps [of _ _ 0] faceLines.simps [of _ _ 3] faceLine_def
          pointStr_def natStr_digit digitChar_def)
  show ?thesis
    by (simp add: meshInvariant_def exportObj_def exportObjMesh_def positionLine_def
          normalLine_def mtlBlock_def newline_def n0 f [simplified])
qed

subsection \<open>GLB exporter\<close>

lemma pad4_cases:
  obtains "n mod 4 = 0" and "pad4 n = n"
  | a q where "n mod 4 \<noteq> 0" and "n = 4 * q + a" and "0 < a" and "a < 4"
      and "pad4 n = 4 * (q + 1)"
proof (cases "n mod 4 = 0")
  case True
  then have "pad4 n = n" by (simp add: pad4_def)
  with True show ?thesis by (rule that(1))
next
  case False
  define a where "a = n mod 4"
  define q where "q = n div 4"
  have a: "0 < a" "a < 4" using False by (simp_all add: a_def)
  have n: "n = 4 * q + a" by (simp add: a_def q_def)
  have "pad4 n = n + (4 - a)" using False by (simp add: pad4_def a_def)
  also have "\<dots> = 4 * (q + 1)" using a n by simp
  finally have p: "pad4 n = 4 * (q + 1)" .
  show ?thesis by (rule that(2) [OF False n a p])
qed

lemma pad4_ge: "n \<le> pad4 n"
  by (rule pad4_cases [of n]) simp_all

lemma pad4_less: "pad4 n - n < 4"
  by (rule pad4_cases [of n]) simp_all

lemma pad4_mod: "pad4 n mod 4 = 0"
  by (rule pad4_cases [of n]) simp_all

lemma createChunk_eq:
  "createChunk chunkType buf n padChar =
     ((le32 (word_of_nat (pad4 n)) @ le32 (word_of_nat chunkType)) # buf
        @ (if n mod 4 \<noteq> 0 then [replicate (4 - n mod 4) padChar] else []),
      pad4 n + 8)"
  by (simp add: createChunk_def pad4_def Let_def)

lemma concat_createChunk:
  "concat (fst (createChunk chunkType buf n padChar)) =
     le32 (word_of_nat (pad4 n)) @ le32 (word_of_nat chunkType) @ concat buf
       @ replicate (pad4 n - n) padChar"
  by (simp add: createChunk_eq pad4_def)

lemma exportGlbMesh_byteOffset:
  "byteOffset st = length (concat (binaryBuffer st)) \<Longrightarrow>
   byteOffset (exportGlbMesh f32 toRgb st e) =
     length (concat (binaryBuffer (exportGlbMesh f32 toRgb st e)))"
  by (simp add: exportGlbMesh_def Let_def split: prod.split)

lemma foldl_exportGlbMesh_byteOffset:
  "byteOffset st = length (concat (binaryBuffer st)) \<Longrightarrow>
   byteOffset (foldl (exportGlbMesh f32 toRgb) st ms) =
     length (concat (binaryBuffer (foldl (exportGlbMesh f32 toRgb) st ms)))"
proof (induction ms arbitrary: st)
  case Nil
  then show ?case by simp
next
  case (Cons e ms)
  from Cons.prems have "byteOffset (exportGlbMesh f32 toRgb st e) =
      length (concat (binaryBuffer (exportGlbMesh f32 toRgb st e)))"
    by (rule exportGlbMesh_byteOffset)
  then show ?case
    unfolding foldl_Cons by (rule Cons.IH)
qed

lemma exportGlbMeshes_byteOffset:
  "byteOffset (exportGlbMeshes f32 toRgb ms) =
     length (concat (binaryBuffer (exportGlbMeshes f32 toRgb ms)))"
  unfolding exportGlbMeshes_def by (rule foldl_exportGlbMesh_byteOffset) simp

text \<open>
  The buffer \<open>exportGlb\<close> returns, block by block.
\<close>

lemma exportGlb_eq:
  fixes stringify f32 toRgb ms
  defines "json \<equiv> map (\<lambda>c. (of_char c :: byte)) (stringify (gltfManifest (exportGlbMeshes f32 toRgb ms)))"
    and "bin \<equiv> concat (binaryBuffer (exportGlbMeshes f32 toRgb ms))"
  shows "exportGlb stringify f32 toRgb ms =
     Inr (le32 0x46546C67 @ le32 2
          @ le32 (word_of_nat (12 + (pad4 (length json) + 8) + (pad4 (length bin) + 8)))
          @ le32 (word_of_nat (pad4 (length json))) @ le32 0x4E4F534A
          @ (json @ replicate (pad4 (length json) - length json) 0x20)
          @ le32 (word_of_nat (pad4 (length bin))) @ le32 0x004E4942
          @ (bin @ replicate (pad4 (length bin) - length bin) 0))"
proof -
  have len: "\<And>n::nat. n + (pad4 n - n) = pad4 n"
    using pad4_ge by simp
  show ?thesis
    unfolding exportGlb_def Let_def exportGlbMeshes_byteOffset
    by (simp add: split_beta concat_createChunk createChunk_eq [THEN arg_cong, of snd]
          json_def bin_def len)
qed

lemma unat_word_of_nat_32: "n < 2 ^ 32 \<Longrightarrow> unat (word_of_nat n :: 32 word) = n"
  by (simp add: unat_of_nat)

lemma fieldAt_skip:
  "length a \<le> off \<Longrightarrow> fieldAt (a @ b) off n = fieldAt b (off - length a) n"
  by (simp add: fieldAt_def)

lemma fieldAt_le32_head: "fieldAt (le32 w @ b) 0 4 = unat w"
  by (simp add: fieldAt_def leNat_le32)

lemma glb_layout:
  fixes jdata bdata :: "byte list" and m v t jw jt bw bt :: "32 word"
  assumes j: "length jdata = jl" and b: "length bdata = bl"
    and glb: "glb = le32 m @ le32 v @ le32 t @ le32 jw @ le32 jt @ jdata @ le32 bw @ le32 bt @ bdata"
  shows "fieldAt glb 0 4 = unat m" and "fieldAt glb 4 4 = unat v" and "fieldAt glb 8 4 = unat t"
    and "fieldAt glb 12 4 = unat jw" and "fieldAt glb 16 4 = unat jt"
    and "fieldAt glb (20 + jl) 4 = unat bw" and "fieldAt glb (24 + jl) 4 = unat bt"
    and "take jl (drop 20 glb) = jdata" and "take bl (drop (28 + jl) glb) = bdata"
    and "length glb = 12 + (8 + jl) + (8 + bl)"
  unfolding glb using j b
  by (simp_all add: fieldAt_skip fieldAt_le32_head)

text \<open>
  C8: \<open>exportGlb\<close> returns a buffer, for every mesh set (the invariants are not needed).
  When its length fits the 32-bit length field of the header, a reader finds the magic
  \<open>0x46546C67\<close>, the version 2 and a declared total length equal to the length of the
  buffer, which is 12 plus the two chunk totals (8 bytes of chunk header and the declared
  chunk length each); both declared chunk lengths are divisible by 4; the JSON chunk holds
  the bytes of the manifest followed by fewer than four bytes \<open>0x20\<close>, the BIN chunk the
  binary blocks followed by fewer than four bytes \<open>0x00\<close>.
\<close>

theorem exportGlb_structure:
  "\<exists>glb. exportGlb stringify f32 toRgbNormalized meshByColor = Inr glb \<and>
     (length glb < 2 ^ 32 \<longrightarrow>
       (let st = exportGlbMeshes f32 toRgbNormalized meshByColor;
            json = map (\<lambda>c. (of_char c :: byte)) (stringify (gltfManifest st));
            bin = concat (binaryBuffer st);
            jsonLength = fieldAt glb 12 4;
            binLength = fieldAt glb (20 + jsonLength) 4
        in fieldAt glb 0 4 = 0x46546C67
           \<and> fieldAt glb 4 4 = 2
           \<and> fieldAt glb 8 4 = length glb
           \<and> length glb = 12 + (8 + jsonLength) + (8 + binLength)
           \<and> fieldAt glb 16 4 = 0x4E4F534A
           \<and> fieldAt glb (24 + jsonLength) 4 = 0x004E4942
           \<and> jsonLength mod 4 = 0
           \<and> binLength mod 4 = 0
           \<and> (\<exists>pad<4. take jsonLength (drop 20 glb) = json @ replicate pad 0x20)
           \<and> (\<exists>pad<4. take binLength (drop (28 + jsonLength) glb) = bin @ replicate pad 0x00)))"
proof -
  define json where
    "json = map (\<lambda>c. (of_char c :: byte))
              (stringify (gltfManifest (exportGlbMeshes f32 toRgbNormalized meshByColor)))"
  define bin where "bin = concat (binaryBuffer (exportGlbMeshes f32 toRgbNormalized meshByColor))"
  define jl where "jl = pad4 (length json)"
  define bl where "bl = pad4 (length bin)"
  define jdata where "jdata = json @ replicate (jl - length json) 0x20"
  define bdata where "bdata = bin @ replicate (bl - length bin) 0"
  define glb where
    "glb = le32 0x46546C67 @ le32 2 @ le32 (word_of_nat (12 + (jl + 8) + (bl + 8)))
           @ le32 (word_of_nat jl) @ le32 0x4E4F534A @ jdata
           @ le32 (word_of_nat bl) @ le32 0x004E4942 @ bdata"
  have res: "exportGlb stringify f32 toRgbNormalized meshByColor = Inr glb"
    unfolding glb_def jdata_def bdata_def jl_def bl_def json_def bin_def
    by (rule exportGlb_eq)
  have lj: "length jdata = jl" and lb: "length bdata = bl"
    using pad4_ge [of "length json"] pad4_ge [of "length bin"]
    by (simp_all add: jdata_def bdata_def jl_def bl_def)
  note lay = glb_layout [OF lj lb glb_def]
  have main: "length glb < 2 ^ 32 \<longrightarrow>
       (let st = exportGlbMeshes f32 toRgbNormalized meshByColor;
            json = map (\<lambda>c. (of_char c :: byte)) (stringify (gltfManifest st));
            bin = concat (binaryBuffer st);
            jsonLength = fieldAt glb 12 4;
            binLength = fieldAt glb (20 + jsonLength) 4
        in fieldAt glb 0 4 = 0x46546C67
           \<and> fieldAt glb 4 4 = 2
           \<and> fieldAt glb 8 4 = length glb
           \<and> length glb = 12 + (8 + jsonLength) + (8 + binLength)
           \<and> fieldAt glb 16 4 = 0x4E4F534A
           \<and> fieldAt glb (24 + jsonLength) 4 = 0x004E4942
           \<and> jsonLength mod 4 = 0
           \<and> binLength mod 4 = 0
           \<and> (\<exists>pad<4. take jsonLength (drop 20 glb) = json @ replicate pad 0x20)
           \<and> (\<exists>pad<4. take binLength (drop (28 + jsonLength) glb) = bin @ replicate pad 0x00))"
  proof (rule impI)
    assume small: "length glb < 2 ^ 32"
    have total: "12 + (jl + 8) + (bl + 8) < (2::nat) ^ 32"
      using small lay(10) by simp
    have "unat (word_of_nat (12 + (jl + 8) + (bl + 8)) :: 32 word) = 12 + (jl + 8) + (bl + 8)"
      by (rule unat_word_of_nat_32 [OF total])
    then have ut: "unat (word_of_nat (12 + (jl + 8) + (bl + 8)) :: 32 word) = length glb"
      by (simp only: lay(10) add.commute [of 8])
    have uj: "unat (word_of_nat jl :: 32 word) = jl"
      by (rule unat_word_of_nat_32) (use total in simp)
    have ub: "unat (word_of_nat bl :: 32 word) = bl"
      by (rule unat_word_of_nat_32) (use total in simp)
    have f12: "fieldAt glb 12 4 = jl"
      using lay(4) uj by simp
    have f20: "fieldAt glb (20 + jl) 4 = bl"
      using lay(6) ub by simp
    have f8: "fieldAt glb 8 4 = length glb"
      using lay(3) ut by simp
    have "jl - length json < 4" and "bl - length bin < 4"
      using pad4_less [of "length json"] pad4_less [of "length bin"]
      by (simp_all add: jl_def bl_def)
    moreover have "take jl (drop 20 glb) = json @ replicate (jl - length json) 0x20"
      and "take bl (drop (28 + jl) glb) = bin @ replicate (bl - length bin) 0x00"
      using lay(8) lay(9) by (simp_all only: jdata_def bdata_def)
    ultimately have pj: "\<exists>pad<4. take jl (drop 20 glb) = json @ replicate pad 0x20"
      and pb: "\<exists>pad<4. take bl (drop (28 + jl) glb) = bin @ replicate pad 0x00"
      by blast+
    have mj: "jl mod 4 = 0" and mb: "bl mod 4 = 0"
      by (simp_all add: jl_def bl_def pad4_mod)
    have m: "fieldAt glb 0 4 = 0x46546C67" and v: "fieldAt glb 4 4 = 2"
      and jt: "fieldAt glb 16 4 = 0x4E4F534A" and bt: "fieldAt glb (24 + jl) 4 = 0x004E4942"
      using lay(1) lay(2) lay(5) lay(7) by simp_all
    show "let st = exportGlbMeshes f32 toRgbNormalized meshByColor;
            json = map (\<lambda>c. (of_char c :: byte)) (stringify (gltfManifest st));
            bin = concat (binaryBuffer st);
            jsonLength = fieldAt glb 12 4;
            binLength = fieldAt glb (20 + jsonLength) 4
        in fieldAt glb 0 4 = 0x46546C67
           \<and> fieldAt glb 4 4 = 2
           \<and> fieldAt glb 8 4 = length glb
           \<and> length glb = 12 + (8 + jsonLength) + (8 + binLength)
           \<and> fieldAt glb 16 4 = 0x4E4F534A
           \<and> fieldAt glb (24 + jsonLength) 4 = 0x004E4942
           \<and> jsonLength mod 4 = 0
           \<and> binLength mod 4 = 0
           \<and> (\<exists>pad<4. take jsonLength (drop 20 glb) = json @ replicate pad 0x20)
           \<and> (\<exists>pad<4. take binLength (drop (28 + jsonLength) glb) = bin @ replicate pad 0x00)"
      unfolding Let_def json_def [symmetric] bin_def [symmetric] f12 f20
      by (intro conjI m v f8 lay(10) jt bt mj mb pj pb)
  qed
  show ?thesis
    by (rule exI [of _ glb], rule conjI [OF res main])
qed

lemma exportGlb_length:
  assumes "exportGlb stringify f32 toRgb ms = Inr glb"
  shows "length glb =
           28 + pad4 (length (stringify (gltfManifest (exportGlbMeshes f32 toRgb ms))))
              + pad4 (length (concat (binaryBuffer (exportGlbMeshes f32 toRgb ms))))"
proof -
  have "length glb = length (projr (exportGlb stringify f32 toRgb ms))"
    using assms by simp
  also have "\<dots> = 28 + pad4 (length (stringify (gltfManifest (exportGlbMeshes f32 toRgb ms))))
              + pad4 (length (concat (binaryBuffer (exportGlbMeshes f32 toRgb ms))))"
    unfolding exportGlb_eq
    using pad4_ge [of "length (stringify (gltfManifest (exportGlbMeshes f32 toRgb ms)))"]
      pad4_ge [of "length (concat (binaryBuffer (exportGlbMeshes f32 toRgb ms)))"]
    by simp
  finally show ?thesis .
qed

lemma exportGlbMesh_binaryBuffer:
  "binaryBuffer (exportGlbMesh f32 toRgb st e) =
     binaryBuffer st @ [uint32ArrayBuffer (faces (snd e)), flattenVec3s f32 (positions (snd e)),
                        flattenVec3s f32 (normals (snd e))]"
  by (simp add: exportGlbMesh_def Let_def split: prod.split)

lemma foldl_exportGlbMesh_binaryBuffer:
  "binaryBuffer (foldl (exportGlbMesh f32 toRgb) st ms) =
     binaryBuffer st @ concat (map (\<lambda>e. [uint32ArrayBuffer (faces (snd e)),
                                        flattenVec3s f32 (positions (snd e)),
                                        flattenVec3s f32 (normals (snd e))]) ms)"
proof (induction ms arbitrary: st)
  case Nil
  show ?case by simp
next
  case (Cons e ms)
  show ?case
    by (simp only: foldl_Cons Cons.IH exportGlbMesh_binaryBuffer) simp
qed

lemma length_uint32ArrayBuffer: "length (uint32ArrayBuffer xs) = 4 * length xs"
  by (induction xs) (simp_all add: uint32ArrayBuffer_def)

lemma length_flattenVec3s: "length (flattenVec3s f32 vs) = 12 * length vs"
  by (induction vs) (simp_all add: flattenVec3s_def split: prod.split)

text \<open>
  The binary blocks of a mesh set: per mesh the face indices, the positions and the
  normals.
\<close>

lemma exportGlbMeshes_binaryBuffer:
  "concat (binaryBuffer (exportGlbMeshes f32 toRgb ms)) =
     concat (map (\<lambda>e. uint32ArrayBuffer (faces (snd e)) @ flattenVec3s f32 (positions (snd e))
                        @ flattenVec3s f32 (normals (snd e))) ms)"
  unfolding exportGlbMeshes_def foldl_exportGlbMesh_binaryBuffer
  by (induction ms) simp_all

theorem exportGlb_structure_witness:
  "\<exists>glb. exportGlb (\<lambda>j. ''{}'') (\<lambda>x. 0) (\<lambda>c. (1, 0, 0))
            [(0xFF0000, \<lparr>positions = [(0, 0, 0), (1, 0, 0), (0, 1, 0)],
                         normals = [(0, 0, 1), (0, 0, 1), (0, 0, 1)],
                         faces = [0, 1, 2]\<rparr>)] = Inr glb
     \<and> length glb < 2 ^ 32
     \<and> (let st = exportGlbMeshes (\<lambda>x. 0) (\<lambda>c. (1, 0, 0))
                    [(0xFF0000, \<lparr>positions = [(0, 0, 0), (1, 0, 0), (0, 1, 0)],
                                 normals = [(0, 0, 1), (0, 0, 1), (0, 0, 1)],
                                 faces = [0, 1, 2]\<rparr>)];
            json = map (\<lambda>c. (of_char c :: byte)) ((\<lambda>j. ''{}'') (gltfManifest st));
            bin = concat (binaryBuffer st);
            jsonLength = fieldAt glb 12 4;
            binLength = fieldAt glb (20 + jsonLength) 4
        in fieldAt glb 0 4 = 0x46546C67
           \<and> fieldAt glb 4 4 = 2
           \<and> fieldAt glb 8 4 = length glb
           \<and> length glb = 12 + (8 + jsonLength) + (8 + binLength)
           \<and> fieldAt glb 16 4 = 0x4E4F534A
           \<and> fieldAt glb (24 + jsonLength) 4 = 0x004E4942
           \<and> jsonLength mod 4 = 0
           \<and> binLength mod 4 = 0
           \<and> (\<exists>pad<4. take jsonLength (drop 20 glb) = json @ replicate pad 0x20)
           \<and> (\<exists>pad<4. take binLength (drop (28 + jsonLength) glb) = bin @ replicate pad 0x00))"
proof -
  let ?ms = "[(0xFF0000 :: Color, \<lparr>positions = [(0, 0, 0), (1, 0, 0), (0, 1, 0)],
                         normals = [(0, 0, 1), (0, 0, 1), (0, 0, 1)],
                         faces = [0, 1, 2]\<rparr>)]"
  let ?stringify = "\<lambda>j :: json. ''{}''"
  let ?f32 = "\<lambda>x :: real. 0 :: 32 word"
  let ?rgb = "\<lambda>c :: Color. (1, 0, 0) :: Vec3"
  from exportGlb_structure [of ?stringify ?f32 ?rgb ?ms]
  obtain glb where g: "exportGlb ?stringify ?f32 ?rgb ?ms = Inr glb"
    and imp: "length glb < 2 ^ 32 \<longrightarrow>
       (let st = exportGlbMeshes ?f32 ?rgb ?ms;
            json = map (\<lambda>c. (of_char c :: byte)) (?stringify (gltfManifest st));
            bin = concat (binaryBuffer st);
            jsonLength = fieldAt glb 12 4;
            binLength = fieldAt glb (20 + jsonLength) 4
        in fieldAt glb 0 4 = 0x46546C67
           \<and> fieldAt glb 4 4 = 2
           \<and> fieldAt glb 8 4 = length glb
           \<and> length glb = 12 + (8 + jsonLength) + (8 + binLength)
           \<and> fieldAt glb 16 4 = 0x4E4F534A
           \<and> fieldAt glb (24 + jsonLength) 4 = 0x004E4942
           \<and> jsonLength mod 4 = 0
           \<and> binLength mod 4 = 0
           \<and> (\<exists>pad<4. take jsonLength (drop 20 glb) = json @ replicate pad 0x20)
           \<and> (\<exists>pad<4. take binLength (drop (28 + jsonLength) glb) = bin @ replicate pad 0x00))"
    by (elim exE conjE)
  have "length glb = 28 + pad4 (length ''{}'') + pad4 84"
    using exportGlb_length [OF g]
    by (simp add: exportGlbMeshes_binaryBuffer length_uint32ArrayBuffer length_flattenVec3s)
  then have small: "length glb < 2 ^ 32"
    by (simp add: pad4_def)
  show ?thesis
    by (rule exI [of _ glb], intro conjI g small, rule mp [OF imp small])
qed

subsection \<open>USD integer coding\<close>

lemma three_mask: "(3::byte) = mask 2"
  by (simp add: mask_eq_exp_minus_1)

lemma word32_bytes:
  "word32 (ucast w) (ucast (drop_bit 8 w)) (ucast (drop_bit 16 w)) (ucast (drop_bit 24 w)) = (w :: 32 word)"
  unfolding word32_def
proof (rule bit_word_eqI)
  fix n assume n: "n < LENGTH(32)"
  consider "n < 8" | "8 \<le> n" "n < 16" | "16 \<le> n" "n < 24" | "24 \<le> n" "n < 32"
    using n by fastforce
  then show "bit (ucast (ucast w :: byte) OR push_bit 8 (ucast (ucast (drop_bit 8 w) :: byte))
              OR push_bit 16 (ucast (ucast (drop_bit 16 w) :: byte))
              OR push_bit 24 (ucast (ucast (drop_bit 24 w) :: byte)) :: 32 word) n = bit w n"
    by cases (auto simp: bit_simps)
qed

lemma word16_bytes: "word16 (ucast w) (ucast (drop_bit 8 w)) = (w :: 16 word)"
  unfolding word16_def
proof (rule bit_word_eqI)
  fix n assume n: "n < LENGTH(16)"
  consider "n < 8" | "8 \<le> n" "n < 16"
    using n by fastforce
  then show "bit (ucast (ucast w :: byte) OR push_bit 8 (ucast (ucast (drop_bit 8 w) :: byte)) :: 16 word) n
             = bit w n"
    by cases (auto simp: bit_simps)
qed

lemma scast_int8:
  "- 128 \<le> v \<Longrightarrow> v \<le> 127 \<Longrightarrow> (scast (word_of_int v :: 8 word) :: 32 word) = word_of_int v"
  by (simp add: scast_eq sint_sbintrunc' signed_take_bit_int_eq_self)

lemma scast_int16:
  "- 32768 \<le> v \<Longrightarrow> v \<le> 32767 \<Longrightarrow> (scast (word_of_int v :: 16 word) :: 32 word) = word_of_int v"
  by (simp add: scast_eq sint_sbintrunc' signed_take_bit_int_eq_self)

lemma sint_in32: "in32 v \<Longrightarrow> sint (word_of_int v :: 32 word) = v"
  by (simp add: in32_def sint_sbintrunc' signed_take_bit_int_eq_self)

lemma slot_same:
  fixes b c :: byte
  assumes s: "s < 4" and c: "c AND mask 2 = c" and z: "drop_bit (s * 2) b AND mask 2 = 0"
  shows "drop_bit (s * 2) (b OR push_bit (s * 2) c) AND mask 2 = c"
proof (rule bit_word_eqI)
  fix n assume n: "n < LENGTH(8)"
  have cb: "m < 2" if "bit c m" for m
    using that c by (metis bit_and_iff bit_mask_iff)
  have bb: "\<not> bit b (s * 2 + m)" if "m < 2" for m
  proof -
    have "\<not> bit (drop_bit (s * 2) b AND mask 2) m" unfolding z by simp
    then show ?thesis using that by (simp add: bit_simps)
  qed
  show "bit (drop_bit (s * 2) (b OR push_bit (s * 2) c) AND mask 2) n = bit c n"
    using s n cb [of n] bb [of n] by (auto simp: bit_simps)
qed

lemma slot_other:
  fixes b c :: byte
  assumes s: "s < 4" and s': "s' < 4" and ne: "s \<noteq> s'" and c: "c AND mask 2 = c"
  shows "drop_bit (s' * 2) (b OR push_bit (s * 2) c) AND mask 2 = drop_bit (s' * 2) b AND mask 2"
proof (rule bit_word_eqI)
  fix n assume n: "n < LENGTH(8)"
  have cb: "m < 2" if "bit c m" for m
    using that c by (metis bit_and_iff bit_mask_iff)
  show "bit (drop_bit (s' * 2) (b OR push_bit (s * 2) c) AND mask 2) n
        = bit (drop_bit (s' * 2) b AND mask 2) n"
    using s s' ne n cb [of "s' * 2 + n - s * 2"] by (auto simp: bit_simps)
qed

lemma code_mask: "c = 1 \<or> c = 2 \<or> c = 3 \<Longrightarrow> (c::byte) AND mask 2 = c"
  by (auto simp: mask_eq_exp_minus_1)

lemma length_store: "p + length bs \<le> length data \<Longrightarrow> length (store data p bs) = length data"
  by (simp add: store_def)

lemma nth_store_before: "k < p \<Longrightarrow> p \<le> length data \<Longrightarrow> store data p bs ! k = data ! k"
  by (simp add: store_def nth_append)

lemma nth_store_at: "i < length bs \<Longrightarrow> p \<le> length data \<Longrightarrow> store data p bs ! (p + i) = bs ! i"
  by (simp add: store_def nth_append)

lemma length_orAt: "length (orAt data k x) = length data"
  by (simp add: orAt_def)

lemma nth_orAt_other: "j \<noteq> k \<Longrightarrow> orAt data k x ! j = data ! j"
  by (simp add: orAt_def)

lemma codeAt_cong: "bytes ! ((j + 16) div 4) = data ! ((j + 16) div 4) \<Longrightarrow> codeAt bytes j = codeAt data j"
  by (simp add: codeAt_def)

lemma codeAt_orAt_same:
  assumes "(v + 16) div 4 < length data" and "codeAt data v = 0" and "c = 1 \<or> c = 2 \<or> c = 3"
  shows "codeAt (orAt data ((v + 16) div 4) (push_bit (((v + 16) mod 4) * 2) c)) v = c"
proof -
  have "drop_bit ((v + 16) mod 4 * 2) (data ! ((v + 16) div 4)) AND mask 2 = 0"
    using assms(2) by (simp add: codeAt_def three_mask)
  then have "drop_bit ((v + 16) mod 4 * 2)
               (data ! ((v + 16) div 4) OR push_bit ((v + 16) mod 4 * 2) c) AND mask 2 = c"
    by (intro slot_same code_mask assms(3)) simp_all
  then show ?thesis
    using assms(1) by (simp add: codeAt_def orAt_def three_mask)
qed

lemma codeAt_orAt_other:
  assumes "j \<noteq> v" and "c = 1 \<or> c = 2 \<or> c = 3"
  shows "codeAt (orAt data ((v + 16) div 4) (push_bit (((v + 16) mod 4) * 2) c)) j = codeAt data j"
proof (cases "(j + 16) div 4 = (v + 16) div 4")
  case False
  then show ?thesis
    by (intro codeAt_cong nth_orAt_other)
next
  case True
  have "(j + 16) mod 4 \<noteq> (v + 16) mod 4"
  proof
    assume "(j + 16) mod 4 = (v + 16) mod 4"
    with True have "j + 16 = v + 16"
      by (metis div_mult_mod_eq)
    with assms(1) show False by simp
  qed
  then have "drop_bit ((j + 16) mod 4 * 2)
               (data ! ((v + 16) div 4) OR push_bit ((v + 16) mod 4 * 2) c) AND mask 2
             = drop_bit ((j + 16) mod 4 * 2) (data ! ((v + 16) div 4)) AND mask 2"
    by (intro slot_other code_mask assms(2)) simp_all
  then show ?thesis
    using True by (simp add: codeAt_def orAt_def three_mask)
qed

lemma codeAt_store:
  "(j + 16) div 4 < p \<Longrightarrow> p \<le> length data \<Longrightarrow> codeAt (store data p bs) j = codeAt data j"
  by (intro codeAt_cong nth_store_before)

lemma slotByte_less:
  fixes j n :: nat
  assumes "j < n"
  shows "(j + 16) div 4 < 4 + (n * 2 + 7) div 8"
proof -
  define T where "T = (n * 2 + 7) div 8"
  define m where "m = (n * 2 + 7) mod 8"
  have "8 * T + m = n * 2 + 7" and "m < 8"
    by (simp_all add: T_def m_def)
  then have "j < T * 4" using assms by linarith
  then have "j div 4 < T" by (rule less_mult_imp_div_less)
  moreover have "(j + 16) div 4 = j div 4 + 4" by simp
  ultimately show ?thesis by (simp add: T_def)
qed

text \<open>
  One step of the decoder on a stream that holds, for element \<open>v\<close>, the code \<open>c\<close>
  and the payload bytes \<open>bs\<close> at \<open>p\<close>.
\<close>

lemma deltaAt_code1:
  assumes "bytes ! p = word_of_int val" and "- 128 \<le> val" and "val \<le> 127"
  shows "deltaAt bytes cw 1 p = (word_of_int val, p + 1)"
  using assms by (simp add: deltaAt_def scast_int8)

lemma deltaAt_code2:
  assumes "\<forall>i<2. bytes ! (p + i) = le16 (word_of_int val) ! i"
    and "- 32768 \<le> val" and "val \<le> 32767"
  shows "deltaAt bytes cw 2 p = (word_of_int val, p + 2)"
proof -
  have "bytes ! p = ucast (word_of_int val :: 16 word)"
    and "bytes ! (p + 1) = ucast (drop_bit 8 (word_of_int val :: 16 word))"
    using assms(1) [rule_format, of 0] assms(1) [rule_format, of 1] by (simp_all add: le16_def)
  then show ?thesis
    using assms(2,3) by (simp add: deltaAt_def word16_bytes scast_int16)
qed

lemma deltaAt_code3:
  assumes "\<forall>i<4. bytes ! (p + i) = le32 (word_of_int val) ! i"
  shows "deltaAt bytes cw 3 p = (word_of_int val, p + 4)"
proof -
  have "bytes ! p = ucast (word_of_int val :: 32 word)"
    and "bytes ! (p + 1) = ucast (drop_bit 8 (word_of_int val :: 32 word))"
    and "bytes ! (p + 2) = ucast (drop_bit 16 (word_of_int val :: 32 word))"
    and "bytes ! (p + 3) = ucast (drop_bit 24 (word_of_int val :: 32 word))"
    using assms [rule_format, of 0] assms [rule_format, of 1] assms [rule_format, of 2]
      assms [rule_format, of 3]
    by (simp_all add: le32_def)
  then show ?thesis
    by (simp add: deltaAt_def word32_bytes)
qed

text \<open>
  The second loop and the decoder, from element \<open>v\<close> on. \<open>n\<close> is the number of
  elements of the whole input; the code table ends at \<open>4 + (n * 2 + 7) div 8\<close> and the
  buffer has \<open>4 * n\<close> bytes more. The loop raises no error; it leaves the codes before
  \<open>v\<close>, the first four bytes and the payload before \<open>p\<close> as they are; and the decoder,
  on any stream that agrees with the buffer below the final position, returns the rest of
  the input.
\<close>

lemma codeValues_decode:
  fixes n :: nat and commonValue :: int
  assumes "length data = 4 + (n * 2 + 7) div 8 + n * 4"
    and "v + length vs = n"
    and "4 + (n * 2 + 7) div 8 \<le> p"
    and "p + 4 * length vs \<le> length data"
    and "\<forall>j. v \<le> j \<and> j < n \<longrightarrow> codeAt data j = 0"
    and "in32 pre"
    and "\<forall>x\<in>set vs. in32 x"
  shows "\<exists>data' p'. codeValues commonValue vs v pre (data, p) = Inr (data', p')
           \<and> p \<le> p' \<and> p' \<le> p + 4 * length vs \<and> length data' = length data
           \<and> (\<forall>j<v. codeAt data' j = codeAt data j)
           \<and> (\<forall>k. k < 4 \<or> (4 + (n * 2 + 7) div 8 \<le> k \<and> k < p) \<longrightarrow> data' ! k = data ! k)
           \<and> (\<forall>bytes. (\<forall>k<p'. bytes ! k = data' ! k) \<longrightarrow>
                 decodeValues bytes (word_of_int commonValue) (length vs) v p (word_of_int pre) = vs)"
  using assms
proof (induction vs arbitrary: v pre data p)
  case Nil
  show ?case by simp
next
  case (Cons cur rest)
  define p0 where "p0 = 4 + (n * 2 + 7) div 8"
  define val where "val = cur - pre"
  define sb where "sb = (v + 16) div 4"
  define sl where "sl = (v + 16) mod 4"
  define cw :: "32 word" where "cw = word_of_int commonValue"
  note len = Cons.prems(1) and vn = Cons.prems(2) and pp = Cons.prems(3) [folded p0_def]
    and room = Cons.prems(4) and zero = Cons.prems(5)
  have v: "v < n" using vn by simp
  have sb: "sb < p0" unfolding sb_def p0_def using v by (rule slotByte_less)
  have sb_len: "sb < length data" using sb pp room by simp
  have p_len: "p + 4 \<le> length data" using room by simp
  have cur: "in32 cur" and rest: "\<forall>x\<in>set rest. in32 x"
    using Cons.prems(7) by simp_all
  have z: "codeAt data v = 0" using zero v by simp
  have wsum: "word_of_int pre + (word_of_int val :: 32 word) = word_of_int cur"
    by (simp add: val_def)
  have scur: "sint (word_of_int cur :: 32 word) = cur"
    using cur by (rule sint_in32)
  \<comment> \<open>The step that stores a code \<open>c\<close> and the payload \<open>bs\<close>.\<close>
  have stored: ?case
    if c: "c = 1 \<or> c = 2 \<or> c = 3"
      and w: "length bs = w" "1 \<le> w" "w \<le> 4"
      and step: "codeValues commonValue (cur # rest) v pre (data, p) =
                   codeValues commonValue rest (v + 1) cur
                     (store (orAt data sb (push_bit (sl * 2) c)) p bs, p + w)"
      and dec: "\<And>bytes. \<forall>i<w. bytes ! (p + i) = bs ! i \<Longrightarrow>
                   deltaAt bytes cw c p = (word_of_int val, p + w)"
    for c :: byte and bs w
  proof -
    define data1 where "data1 = orAt data sb (push_bit (sl * 2) c)"
    define data2 where "data2 = store data1 p bs"
    have l1: "length data1 = length data" by (simp add: data1_def length_orAt)
    have pl1: "p \<le> length data1" "p + length bs \<le> length data1"
      using p_len w l1 by simp_all
    have l2: "length data2 = length data"
      unfolding data2_def using pl1 l1 by (simp add: length_store)
    have code2: "codeAt data2 j = (if j = v then c else codeAt data j)" if "j < n" for j
    proof -
      have "(j + 16) div 4 < p"
        using slotByte_less [OF that] pp by (simp add: p0_def)
      then have "codeAt data2 j = codeAt data1 j"
        unfolding data2_def using pl1(1) by (rule codeAt_store)
      also have "\<dots> = (if j = v then c else codeAt data j)"
        unfolding data1_def sb_def sl_def
        using codeAt_orAt_same [OF sb_len [unfolded sb_def] z c]
          codeAt_orAt_other [OF _ c, of j v data]
        by simp
      finally show ?thesis .
    qed
    have byte2: "data2 ! k = data ! k" if "k < 4 \<or> (p0 \<le> k \<and> k < p)" for k
    proof -
      have kp: "k < p" using that pp by (auto simp: p0_def)
      have "k \<noteq> sb" using that sb v by (auto simp: sb_def)
      have "data2 ! k = data1 ! k"
        unfolding data2_def using kp pl1(1) by (rule nth_store_before)
      also have "\<dots> = data ! k"
        unfolding data1_def using \<open>k \<noteq> sb\<close> by (rule nth_orAt_other)
      finally show ?thesis .
    qed
    have pay2: "data2 ! (p + i) = bs ! i" if "i < w" for i
      unfolding data2_def using that w(1) pl1(1) by (simp add: nth_store_at)
    have "\<exists>data' p'. codeValues commonValue rest (v + 1) cur (data2, p + w) = Inr (data', p')
           \<and> p + w \<le> p' \<and> p' \<le> p + w + 4 * length rest \<and> length data' = length data2
           \<and> (\<forall>j<v + 1. codeAt data' j = codeAt data2 j)
           \<and> (\<forall>k. k < 4 \<or> (4 + (n * 2 + 7) div 8 \<le> k \<and> k < p + w) \<longrightarrow> data' ! k = data2 ! k)
           \<and> (\<forall>bytes. (\<forall>k<p'. bytes ! k = data' ! k) \<longrightarrow>
                 decodeValues bytes (word_of_int commonValue) (length rest) (v + 1) (p + w)
                   (word_of_int cur) = rest)"
    proof (rule Cons.IH)
      show "length data2 = 4 + (n * 2 + 7) div 8 + n * 4" using l2 len by simp
      show "v + 1 + length rest = n" using vn by simp
      show "4 + (n * 2 + 7) div 8 \<le> p + w" using pp by (simp add: p0_def)
      show "p + w + 4 * length rest \<le> length data2" using room w l2 by simp
      show "\<forall>j. v + 1 \<le> j \<and> j < n \<longrightarrow> codeAt data2 j = 0"
        using code2 zero by simp
      show "in32 cur" by (rule cur)
      show "\<forall>x\<in>set rest. in32 x" by (rule rest)
    qed
    then obtain data' p' where
      r: "codeValues commonValue rest (v + 1) cur (data2, p + w) = Inr (data', p')"
      and p': "p + w \<le> p'" "p' \<le> p + w + 4 * length rest"
      and l': "length data' = length data2"
      and c': "\<forall>j<v + 1. codeAt data' j = codeAt data2 j"
      and b': "\<forall>k. k < 4 \<or> (p0 \<le> k \<and> k < p + w) \<longrightarrow> data' ! k = data2 ! k"
      and d': "\<forall>bytes. (\<forall>k<p'. bytes ! k = data' ! k) \<longrightarrow>
                 decodeValues bytes cw (length rest) (v + 1) (p + w) (word_of_int cur) = rest"
      unfolding p0_def cw_def by (elim exE conjE)
    have res: "codeValues commonValue (cur # rest) v pre (data, p) = Inr (data', p')"
      using step r by (simp add: data1_def data2_def)
    have frameC: "\<forall>j<v. codeAt data' j = codeAt data j"
    proof (intro allI impI)
      fix j assume "j < v"
      then have "codeAt data' j = codeAt data2 j" using c' by simp
      also have "\<dots> = codeAt data j" using code2 [of j] \<open>j < v\<close> v by simp
      finally show "codeAt data' j = codeAt data j" .
    qed
    have frameB: "\<forall>k. k < 4 \<or> (p0 \<le> k \<and> k < p) \<longrightarrow> data' ! k = data ! k"
    proof (intro allI impI)
      fix k assume k: "k < 4 \<or> (p0 \<le> k \<and> k < p)"
      then have "data' ! k = data2 ! k" using b' by auto
      also have "\<dots> = data ! k" using k by (rule byte2)
      finally show "data' ! k = data ! k" .
    qed
    have decode: "decodeValues bytes cw (length (cur # rest)) v p (word_of_int pre) = cur # rest"
      if agree: "\<forall>k<p'. bytes ! k = data' ! k" for bytes
    proof -
      have "sb < p'" using sb pp p' by simp
      then have "bytes ! sb = data' ! sb" using agree by simp
      then have "codeAt bytes v = codeAt data' v"
        unfolding sb_def by (rule codeAt_cong)
      also have "\<dots> = codeAt data2 v" using c' by simp
      also have "\<dots> = c" using code2 [OF v] by simp
      finally have cv: "codeAt bytes v = c" .
      have "\<forall>i<w. bytes ! (p + i) = bs ! i"
      proof (intro allI impI)
        fix i assume i: "i < w"
        then have "bytes ! (p + i) = data' ! (p + i)" using agree p' by simp
        also have "\<dots> = data2 ! (p + i)" using b' i pp by simp
        also have "\<dots> = bs ! i" using i by (rule pay2)
        finally show "bytes ! (p + i) = bs ! i" .
      qed
      then have dv: "deltaAt bytes cw c p = (word_of_int val, p + w)" by (rule dec)
      have "decodeValues bytes cw (length rest) (v + 1) (p + w) (word_of_int cur) = rest"
        using d' agree by simp
      then show ?thesis
        by (simp add: cv dv wsum scur)
    qed
    show ?case
      apply (rule exI [of _ data'], rule exI [of _ p'])
      apply (intro conjI)
            apply (rule res)
      using p' w apply simp
      using p' w apply simp
      using l' l2 apply simp
        apply (rule frameC)
       apply (rule frameB [unfolded p0_def])
      using decode apply (simp add: cw_def)
      done
  qed
  show ?case
  proof (cases "val = commonValue")
    case True
    have "\<exists>data' p'. codeValues commonValue rest (v + 1) cur (data, p) = Inr (data', p')
           \<and> p \<le> p' \<and> p' \<le> p + 4 * length rest \<and> length data' = length data
           \<and> (\<forall>j<v + 1. codeAt data' j = codeAt data j)
           \<and> (\<forall>k. k < 4 \<or> (4 + (n * 2 + 7) div 8 \<le> k \<and> k < p) \<longrightarrow> data' ! k = data ! k)
           \<and> (\<forall>bytes. (\<forall>k<p'. bytes ! k = data' ! k) \<longrightarrow>
                 decodeValues bytes (word_of_int commonValue) (length rest) (v + 1) p
                   (word_of_int cur) = rest)"
    proof (rule Cons.IH)
      show "length data = 4 + (n * 2 + 7) div 8 + n * 4" by (rule len)
      show "v + 1 + length rest = n" using vn by simp
      show "4 + (n * 2 + 7) div 8 \<le> p" using pp by (simp add: p0_def)
      show "p + 4 * length rest \<le> length data" using room by simp
      show "\<forall>j. v + 1 \<le> j \<and> j < n \<longrightarrow> codeAt data j = 0" using zero by simp
      show "in32 cur" by (rule cur)
      show "\<forall>x\<in>set rest. in32 x" by (rule rest)
    qed
    then obtain data' p' where
      r: "codeValues commonValue rest (v + 1) cur (data, p) = Inr (data', p')"
      and p': "p \<le> p'" "p' \<le> p + 4 * length rest"
      and l': "length data' = length data"
      and c': "\<forall>j<v + 1. codeAt data' j = codeAt data j"
      and b': "\<forall>k. k < 4 \<or> (p0 \<le> k \<and> k < p) \<longrightarrow> data' ! k = data ! k"
      and d': "\<forall>bytes. (\<forall>k<p'. bytes ! k = data' ! k) \<longrightarrow>
                 decodeValues bytes cw (length rest) (v + 1) p (word_of_int cur) = rest"
      unfolding p0_def cw_def by (elim exE conjE)
    have res: "codeValues commonValue (cur # rest) v pre (data, p) = Inr (data', p')"
      using True r by (simp add: val_def)
    have decode: "decodeValues bytes cw (length (cur # rest)) v p (word_of_int pre) = cur # rest"
      if agree: "\<forall>k<p'. bytes ! k = data' ! k" for bytes
    proof -
      have "sb < p'" using sb pp p' by simp
      then have "bytes ! sb = data' ! sb" using agree by simp
      then have "codeAt bytes v = codeAt data' v"
        unfolding sb_def by (rule codeAt_cong)
      also have "\<dots> = codeAt data v" using c' by simp
      finally have cv: "codeAt bytes v = 0" using z by simp
      have "decodeValues bytes cw (length rest) (v + 1) p (word_of_int cur) = rest"
        using d' agree by simp
      then show ?thesis
        using True wsum by (simp add: cv deltaAt_def scur cw_def)
    qed
    show ?thesis
      apply (rule exI [of _ data'], rule exI [of _ p'])
      apply (intro conjI)
            apply (rule res)
      using p' apply simp
      using p' apply simp
         apply (rule l')
      using c' apply simp
       apply (rule b' [unfolded p0_def])
      using decode apply (simp add: cw_def)
      done
  next
    case False
    note ne = False
    show ?thesis
    proof (cases "val \<le> 0x7F \<and> val \<ge> - 0x80")
      case True
      show ?thesis
      proof (rule stored [of 1 "[word_of_int val]" 1])
        show "codeValues commonValue (cur # rest) v pre (data, p) =
                codeValues commonValue rest (v + 1) cur
                  (store (orAt data sb (push_bit (sl * 2) 1)) p [word_of_int val], p + 1)"
          using ne True p_len
          by (simp add: Let_def val_def sb_def sl_def setInt8_def checkedStore_def length_orAt)
        show "deltaAt bytes cw 1 p = (word_of_int val, p + 1)"
          if "\<forall>i<1. bytes ! (p + i) = [word_of_int val] ! i" for bytes
          using that True by (intro deltaAt_code1) simp_all
      qed simp_all
    next
      case False
      note n8 = False
      show ?thesis
      proof (cases "val \<le> 0x7FFF \<and> val \<ge> - 0x8000")
        case True
        show ?thesis
        proof (rule stored [of 2 "le16 (word_of_int val)" 2])
          show "codeValues commonValue (cur # rest) v pre (data, p) =
                  codeValues commonValue rest (v + 1) cur
                    (store (orAt data sb (push_bit (sl * 2) 2)) p (le16 (word_of_int val)), p + 2)"
            using ne n8 True p_len
            by (auto simp add: Let_def val_def sb_def sl_def setInt16_def checkedStore_def length_orAt)
          show "deltaAt bytes cw 2 p = (word_of_int val, p + 2)"
            if "\<forall>i<2. bytes ! (p + i) = le16 (word_of_int val) ! i" for bytes
            using that True by (intro deltaAt_code2) simp_all
        qed simp_all
      next
        case False
        show ?thesis
        proof (rule stored [of 3 "le32 (word_of_int val)" 4])
          show "codeValues commonValue (cur # rest) v pre (data, p) =
                  codeValues commonValue rest (v + 1) cur
                    (store (orAt data sb (push_bit (sl * 2) 3)) p (le32 (word_of_int val)), p + 4)"
            using ne n8 False p_len
            by (auto simp add: Let_def val_def sb_def sl_def setInt32Checked_def checkedStore_def length_orAt)
          show "deltaAt bytes cw 3 p = (word_of_int val, p + 4)"
            if "\<forall>i<4. bytes ! (p + i) = le32 (word_of_int val) ! i" for bytes
            using that by (rule deltaAt_code3)
        qed simp_all
      qed
    qed
  qed
qed

lemma nth_store_after:
  assumes "p + length bs \<le> k" and "k < length data"
  shows "store data p bs ! k = data ! k"
proof -
  have 1: "length (take p data) = p" and 2: "\<not> k < p" and 3: "\<not> k - p < length bs"
    and 4: "p + length bs + (k - p - length bs) = k" and 5: "p + length bs \<le> length data"
    using assms by simp_all
  have "store data p bs ! k = (bs @ drop (p + length bs) data) ! (k - p)"
    unfolding store_def by (simp only: nth_append 1 2 if_False)
  also have "\<dots> = drop (p + length bs) data ! (k - p - length bs)"
    by (simp only: nth_append 3 if_False)
  also have "\<dots> = data ! (p + length bs + (k - p - length bs))"
    using 5 by (rule nth_drop)
  finally show ?thesis by (simp only: 4)
qed

text \<open>
  C6: for every sequence of 32-bit integers \<open>usdInt32Compress\<close> returns a stream (no
  error), and the decoder of the claim (common value in the first four bytes, two bits of
  code per element from pair 16 on, payload of signed 8, 16 and 32-bit little-endian
  differences, summed from 0 in 32-bit arithmetic) returns the sequence from it; the empty
  input encodes to the empty byte string.
\<close>

theorem usdInt32Compress_round_trip:
  assumes "\<forall>x\<in>set vals. - 2147483648 \<le> x \<and> x < 2147483648"
  shows "(\<exists>bytes. usdInt32Compress vals = Inr bytes
            \<and> usdInt32Decode (length vals) bytes = vals)
         \<and> usdInt32Compress [] = Inr []"
proof (rule conjI)
  show "usdInt32Compress [] = Inr []"
    by (simp add: usdInt32Compress_def)
  show "\<exists>bytes. usdInt32Compress vals = Inr bytes \<and> usdInt32Decode (length vals) bytes = vals"
  proof (cases "vals = []")
    case True
    then show ?thesis
      by (simp add: usdInt32Compress_def usdInt32Decode_def)
  next
    case False
    define n where "n = length vals"
    define p0 where "p0 = 4 + (n * 2 + 7) div 8"
    define common where "common = pickCommon (tallyDeltas vals 0 [])"
    define cw :: "32 word" where "cw = word_of_int common"
    define data0 where "data0 = replicate (p0 + n * 4) (0 :: byte)"
    define data1 where "data1 = store data0 0 (le32 cw)"
    have n: "0 < n" using False by (simp add: n_def)
    have l0: "length data0 = p0 + n * 4" by (simp add: data0_def)
    have l1: "length data1 = p0 + n * 4"
      unfolding data1_def using l0 by (simp add: length_store p0_def)
    have set32: "setInt32Checked data0 0 common = Inr data1"
      using l0 by (simp add: setInt32Checked_def checkedStore_def data1_def cw_def p0_def)
    have zero: "\<forall>j. 0 \<le> j \<and> j < n \<longrightarrow> codeAt data1 j = 0"
    proof (intro allI impI)
      fix j assume j: "0 \<le> j \<and> j < n"
      have lt: "(j + 16) div 4 < p0"
        unfolding p0_def using j by (intro slotByte_less) simp
      have ge: "4 \<le> (j + 16) div 4" by simp
      have "data1 ! ((j + 16) div 4) = data0 ! ((j + 16) div 4)"
        unfolding data1_def using ge lt l0 by (intro nth_store_after) simp_all
      also have "\<dots> = 0"
        unfolding data0_def using lt by simp
      finally show "codeAt data1 j = 0"
        by (simp add: codeAt_def)
    qed
    have in32s: "\<forall>x\<in>set vals. in32 x"
      using assms by (simp add: in32_def)
    have "\<exists>data' p'. codeValues common vals 0 0 (data1, p0) = Inr (data', p')
           \<and> p0 \<le> p' \<and> p' \<le> p0 + 4 * length vals \<and> length data' = length data1
           \<and> (\<forall>j<0. codeAt data' j = codeAt data1 j)
           \<and> (\<forall>k. k < 4 \<or> (4 + (n * 2 + 7) div 8 \<le> k \<and> k < p0) \<longrightarrow> data' ! k = data1 ! k)
           \<and> (\<forall>bytes. (\<forall>k<p'. bytes ! k = data' ! k) \<longrightarrow>
                 decodeValues bytes (word_of_int common) (length vals) 0 p0 (word_of_int 0) = vals)"
    proof (rule codeValues_decode)
      show "length data1 = 4 + (n * 2 + 7) div 8 + n * 4" using l1 by (simp add: p0_def)
      show "0 + length vals = n" by (simp add: n_def)
      show "4 + (n * 2 + 7) div 8 \<le> p0" by (simp add: p0_def)
      show "p0 + 4 * length vals \<le> length data1" using l1 by (simp add: n_def)
      show "\<forall>j. 0 \<le> j \<and> j < n \<longrightarrow> codeAt data1 j = 0" by (rule zero)
      show "in32 0" by (simp add: in32_def)
      show "\<forall>x\<in>set vals. in32 x" by (rule in32s)
    qed
    then obtain data' p' where
      r: "codeValues common vals 0 0 (data1, p0) = Inr (data', p')"
      and p': "p0 \<le> p'" "p' \<le> p0 + 4 * length vals"
      and l': "length data' = length data1"
      and b': "\<forall>k. k < 4 \<or> (4 + (n * 2 + 7) div 8 \<le> k \<and> k < p0) \<longrightarrow> data' ! k = data1 ! k"
      and d': "\<forall>bytes. (\<forall>k<p'. bytes ! k = data' ! k) \<longrightarrow>
                 decodeValues bytes cw (length vals) 0 p0 0 = vals"
      unfolding cw_def by (elim exE conjE) simp
    have fits: "p' \<le> length data'" using p' l' l1 by (simp add: n_def)
    have res: "usdInt32Compress vals = Inr (take p' data')"
      using n set32 r fits
      by (simp add: usdInt32Compress_def Let_def n_def [symmetric] p0_def [symmetric]
            data0_def [symmetric] common_def [symmetric])
    have agree: "\<forall>k<p'. take p' data' ! k = data' ! k" by simp
    have first: "take p' data' ! k = le32 cw ! k" if "k < 4" for k
    proof -
      have "k < p'" using that p' by (simp add: p0_def)
      then have "take p' data' ! k = data' ! k" by simp
      also have "\<dots> = data1 ! k" using b' that by simp
      also have "\<dots> = le32 cw ! k"
        unfolding data1_def using nth_store_at [of k "le32 cw" 0 data0] that by simp
      finally show ?thesis .
    qed
    have "word32 (take p' data' ! 0) (take p' data' ! 1) (take p' data' ! 2) (take p' data' ! 3) = cw"
      using first [of 0] first [of 1] first [of 2] first [of 3]
      by (simp add: le32_def word32_bytes)
    then have "usdInt32Decode (length vals) (take p' data') = vals"
      using n d' agree
      by (simp add: usdInt32Decode_def n_def [symmetric] p0_def [symmetric])
    with res show ?thesis by blast
  qed
qed

theorem usdInt32Compress_round_trip_witness:
  "\<exists>bytes. usdInt32Compress [1, 1000, - 70000, 5, 5, 2147483647, - 2147483648] = Inr bytes
     \<and> usdInt32Decode (length [1, 1000, - 70000, 5, 5, 2147483647, - 2147483648 :: int]) bytes
         = [1, 1000, - 70000, 5, 5, 2147483647, - 2147483648]"
proof -
  have h: "\<forall>x\<in>set [1, 1000, - 70000, 5, 5, 2147483647, - 2147483648 :: int].
             - 2147483648 \<le> x \<and> x < 2147483648"
    by simp
  from usdInt32Compress_round_trip [OF h] show ?thesis by (rule conjunct1)
qed

subsection \<open>LZ4: sequences\<close>

lemma unat_byte_of_nat: "n < 256 \<Longrightarrow> unat (word_of_nat n :: byte) = n"
  by (simp add: unat_of_nat)

lemma readLength_writeLength:
  "readLength acc (writeLength r @ rest) = Some (acc + r, rest)"
proof (induction r arbitrary: acc rule: writeLength.induct)
  case (1 remLen)
  show ?case
  proof (cases "remLen \<ge> 255")
    case True
    then have "readLength acc (writeLength remLen @ rest) =
                 readLength (acc + 255) (writeLength (remLen - 255) @ rest)"
      by (subst writeLength.simps) simp
    also have "\<dots> = Some (acc + 255 + (remLen - 255), rest)"
      using True by (rule "1.IH")
    finally show ?thesis using True by simp
  next
    case False
    then have u: "unat (word_of_nat remLen :: byte) = remLen"
      by (intro unat_byte_of_nat) simp
    have "(word_of_nat remLen :: byte) \<noteq> 255"
    proof
      assume "(word_of_nat remLen :: byte) = 255"
      then have "unat (word_of_nat remLen :: byte) = unat (255 :: byte)" by simp
      then show False using u False by simp
    qed
    then show ?thesis
      using False u by (subst writeLength.simps) simp
  qed
qed






lemma read_nibble_length:
  "readNibbleLength (if L \<ge> 15 then 15 else L)
     ((if L \<ge> 15 then writeLength (L - 15) else []) @ rest) = Some (L, rest)"
  by (simp add: readNibbleLength_def readLength_writeLength)














subsection \<open>LZ4: the size of the output\<close>






subsection \<open>LZ4: the main loop\<close>










subsection \<open>LZ4: round trip\<close>





subsection \<open>Crate writer: what the field functions keep\<close>

lemma keepsTables_refl: "keepsTables c c"
  by (simp add: keepsTables_def)

lemma keepsTables_trans: "keepsTables a b \<Longrightarrow> keepsTables b c \<Longrightarrow> keepsTables a c"
  by (auto simp add: keepsTables_def)

lemma indexOf_Some: "indexOf x xs = Some i \<Longrightarrow> i < length xs \<and> xs ! i = x"
  by (induction xs arbitrary: i) (auto split: if_splits)

lemma getTokenIndex_result:
  assumes "getTokenIndex t c = (k, c')"
  shows "keepsTables c c' \<and> k < length (tokens c') \<and> tokens c' ! k = t"
proof (cases "indexOf t (tokens c)")
  case None
  then show ?thesis using assms by (auto simp add: getTokenIndex_def keepsTables_def)
next
  case (Some i)
  then show ?thesis
    using assms indexOf_Some [OF Some] by (auto simp add: getTokenIndex_def keepsTables_def)
qed

lemma keeps_getTokenIndex: "keepsTables c (snd (getTokenIndex t c))"
  using getTokenIndex_result [of t c] by (cases "getTokenIndex t c") simp

lemma keeps_getStringIndex: "keepsTables c (snd (getStringIndex s c))"
proof -
  obtain k c1 where g: "getTokenIndex s c = (k, c1)" by (cases "getTokenIndex s c") blast
  then have "keepsTables c c1" using getTokenIndex_result by blast
  then show ?thesis
    by (cases "indexOf k (strings c1)") (auto simp add: getStringIndex_def g keepsTables_def)
qed

lemma keeps_foldl:
  assumes "\<And>c x. keepsTables c (f c x)"
  shows "keepsTables c (foldl f c xs)"
proof (induction xs arbitrary: c)
  case Nil
  show ?case by (simp add: keepsTables_refl)
next
  case (Cons x xs)
  have "keepsTables c (f c x)" by (rule assms)
  moreover have "keepsTables (f c x) (foldl f (f c x) xs)" by (rule Cons.IH)
  ultimately show ?case by (simp add: keepsTables_trans)
qed

lemma keeps_interned: "keepsTables c (foldl (\<lambda>c token. snd (getTokenIndex (g token) c)) c xs)"
  by (rule keeps_foldl) (rule keeps_getTokenIndex)

lemma keeps_addFieldTokens: "keepsTables c (addFieldTokens field data c)"
  unfolding addFieldTokens_def
  by (rule keepsTables_trans [OF keeps_getTokenIndex keeps_interned])

lemma keeps_addFieldTokenVector: "keepsTables c (addFieldTokenVector field data c)"
  unfolding addFieldTokenVector_def
  by (rule keepsTables_trans [OF keeps_getTokenIndex keeps_interned])

lemma keeps_addFieldToken: "keepsTables c (addFieldToken field data c)"
  unfolding addFieldToken_def
  by (rule keepsTables_trans [OF keeps_getTokenIndex keeps_getTokenIndex])

lemma keeps_addFieldDictionary: "keepsTables c (addFieldDictionary field data c)"
proof -
  have "keepsTables c (foldl (\<lambda>c (key, val). snd (getStringIndex val (snd (getStringIndex key c)))) c data)"
    for c
    by (rule keeps_foldl)
      (auto intro: keepsTables_trans [OF keeps_getStringIndex keeps_getStringIndex])
  then show ?thesis
    unfolding addFieldDictionary_def
    by (rule keepsTables_trans [OF keeps_getTokenIndex])
qed

lemma keeps_addFieldPathListOp: "keepsTables c (addFieldPathListOp field pathIndex c)"
  unfolding addFieldPathListOp_def by (rule keeps_getTokenIndex)

lemma keeps_addFieldPathVector: "keepsTables c (addFieldPathVector field pathIndex c)"
  unfolding addFieldPathVector_def by (rule keeps_getTokenIndex)

lemmas keeps_plain =
  keeps_addFieldPathListOp keeps_addFieldPathVector
  keeps_getTokenIndex [folded addFieldSpecifier_def]
  keeps_getTokenIndex [folded addFieldInts_def]
  keeps_getTokenIndex [folded addFieldFloat_def]
  keeps_getTokenIndex [folded addFieldVectors_def]
  keeps_getTokenIndex [folded addFieldVector_def]
  keeps_getTokenIndex [folded addFieldBool_def]
  keeps_getTokenIndex [folded addFieldVariability_def]
  keeps_getTokenIndex [folded addFieldTimeSamples_def]

lemmas keeps_fields =
  keeps_plain keeps_addFieldTokens keeps_addFieldTokenVector keeps_addFieldToken
  keeps_addFieldDictionary


lemma keeps_addField:
  assumes "addField field v c = Inr c'"
  shows "keepsTables c c'"
  using assms by (cases v) (auto simp add: addField_def keeps_fields)

lemma keeps_qualifierField: "keepsTables (snd s) (snd (qualifierField s q))"
  by (simp add: qualifierField_def keeps_fields keepsTables_refl)

lemma keeps_foldl_snd:
  assumes "\<And>s x. keepsTables (snd s) (snd (f s x))"
  shows "keepsTables (snd s) (snd (foldl f s xs))"
proof (induction xs arbitrary: s)
  case Nil
  show ?case by (simp add: keepsTables_refl)
next
  case (Cons x xs)
  have "keepsTables (snd s) (snd (f s x))" by (rule assms)
  moreover have "keepsTables (snd (f s x)) (snd (foldl f (f s x) xs))" by (rule Cons.IH)
  ultimately show ?case by (simp add: keepsTables_trans)
qed

lemma keeps_qualifiers: "keepsTables (snd s) (snd (foldl qualifierField s qs))"
  by (rule keeps_foldl_snd) (rule keeps_qualifierField)

lemma keeps_attMetadata: "keepsTables (snd s) (snd (foldl attMetadataField s md))"
  by (rule keeps_foldl_snd) (simp add: attMetadataField_def keeps_fields)

lemma keeps_rootMetadata: "keepsTables (snd s) (snd (foldl rootMetadataField s md))"
proof (rule keeps_foldl_snd)
  fix s :: "nat \<times> CrateFile" and x :: "string \<times> MetaValue"
  show "keepsTables (snd s) (snd (rootMetadataField s x))"
    by (cases "snd x") (simp_all add: rootMetadataField_def keeps_fields keepsTables_refl)
qed

lemma keeps_primMetadata:
  assumes "primMetadata h md s = Inr s'"
  shows "keepsTables (snd s) (snd s')"
  using assms
proof (induction md arbitrary: s)
  case Nil
  then show ?case by (simp add: keepsTables_refl)
next
  case (Cons entry md)
  obtain name v where e: "entry = (name, v)" by (cases entry) blast
  have step: "keepsTables (snd s) (snd s')"
    if "primMetadata h md s1 = Inr s'" and "keepsTables (snd s) (snd s1)" for s1
    using Cons.IH [OF that(1)] that(2) by (auto intro: keepsTables_trans)
  show ?case
  proof (cases "name = ''inherits''")
    case True
    then show ?thesis using Cons.prems e by (auto intro!: step simp add: keeps_fields)
  next
    case False
    then have nr: "name \<noteq> ''references''" using Cons.prems e by (auto split: if_splits)
    show ?thesis
      using Cons.prems e False nr
      by (cases v) (auto intro!: step simp add: keeps_fields keepsTables_refl)
  qed
qed

subsection \<open>Crate writer: the nodes it writes\<close>

lemma specAndPath_result:
  assumes k: "keepsTables c c5" and r: "specAndPath n ty nm j b c5 = (specIndex, c9)"
  shows "specIndex = length (specs c) \<and>
         (\<exists>k f ext.
            paths c9 = paths c @ [(int (length (specs c)), (if b then - int k else int k), j)]
            \<and> specs c9 = specs c @ [(length (specs c), f, ty)]
            \<and> tokens c9 = tokens c @ ext \<and> k < length (tokens c9) \<and> tokens c9 ! k = nm)"
proof -
  define c2 where
    "c2 = c5\<lparr>fsetsLength := fsetsLength c5 + n + 1,
              specs := specs c5 @ [(length (specs c5), fsetsLength c5, ty)]\<rparr>"
  obtain t c3 where g: "getTokenIndex nm c2 = (t, c3)" by (cases "getTokenIndex nm c2") blast
  have res: "specIndex = length (specs c5)" "c9 = addPath (int (length (specs c5))) (int t) j b c3"
    using r g by (auto simp add: specAndPath_def addFieldSet_def addSpec_def c2_def Let_def)
  from getTokenIndex_result [OF g]
  have k3: "keepsTables c2 c3" and t: "t < length (tokens c3)" "tokens c3 ! t = nm" by simp_all
  obtain e1 where e1: "tokens c5 = tokens c @ e1" using k by (auto simp add: keepsTables_def)
  obtain e2 where e2: "tokens c3 = tokens c2 @ e2" using k3 by (auto simp add: keepsTables_def)
  have p: "paths c3 = paths c" and s: "specs c3 = specs c @ [(length (specs c), fsetsLength c5, ty)]"
    using k k3 by (simp_all add: keepsTables_def c2_def)
  have tk: "tokens c3 = tokens c @ (e1 @ e2)" using e1 e2 by (simp add: c2_def)
  have s5: "specs c5 = specs c" using k by (simp add: keepsTables_def)
  show ?thesis
  proof (intro conjI exI)
    show "specIndex = length (specs c)" using res(1) s5 by simp
    show "paths c9 = paths c @ [(int (length (specs c)), (if b then - int t else int t), j)]"
      using res(2) p s5 by (simp add: addPath_def)
    show "specs c9 = specs c @ [(length (specs c), fsetsLength c5, ty)]"
      using res(2) s by (simp add: addPath_def)
    show "tokens c9 = tokens c @ (e1 @ e2)" using res(2) tk by (simp add: addPath_def)
    show "t < length (tokens c9)" using res(2) t by (simp add: addPath_def)
    show "tokens c9 ! t = nm" using res(2) t by (simp add: addPath_def)
  qed
qed

lemma nodeWritten_keeps:
  assumes "keepsTables c c1" and "nodeWritten n h c1 h' c'"
  shows "nodeWritten n h c h' c'"
proof -
  obtain e1 where e1: "tokens c1 = tokens c @ e1" and p: "paths c1 = paths c"
    and s: "specs c1 = specs c"
    using assms(1) by (auto simp add: keepsTables_def)
  from assms(2) obtain k j f ext where
    h: "h' = setNodeIndex n (int (length (specs c1))) h"
    and pp: "paths c' = paths c1 @ [(int (length (specs c1)), (if isProperty n then - int k else int k), j)]"
    and ss: "specs c' = specs c1 @ [(length (specs c1), f, nodeType n)]"
    and tt: "tokens c' = tokens c1 @ ext" and kk: "k < length (tokens c')" "tokens c' ! k = nodeName n"
    unfolding nodeWritten_def by blast
  have "tokens c' = tokens c @ (e1 @ ext)" using tt e1 by simp
  then show ?thesis
    unfolding nodeWritten_def using h pp ss kk p s by auto
qed

lemma nodesWritten_keeps:
  assumes "keepsTables c c1" and "nodesWritten ns h c1 h' c'"
  shows "nodesWritten ns h c h' c'"
proof (cases ns)
  case Nil
  then show ?thesis using assms by (auto intro: keepsTables_trans)
next
  case (Cons n ms)
  then show ?thesis using assms by (auto intro: nodeWritten_keeps)
qed

lemma nodesWritten_append:
  assumes "nodesWritten xs h c h1 c1" and "nodesWritten ys h1 c1 h' c'"
  shows "nodesWritten (xs @ ys) h c h' c'"
  using assms
proof (induction xs arbitrary: h c)
  case Nil
  then show ?case by (auto intro: nodesWritten_keeps)
next
  case (Cons x xs)
  then show ?case by auto
qed

lemma nodeWritten_single:
  assumes "nodeWritten n h c h' c'"
  shows "nodesWritten [n] h c h' c'"
  using assms by (auto simp add: keepsTables_refl)

lemma written_by_specAndPath:
  assumes k: "keepsTables c c5" and r: "specAndPath fs (nodeType n) (nodeName n) j (isProperty n) c5 = (specIndex, c9)"
  shows "nodeWritten n h c (setNodeIndex n (int specIndex) h) c9"
proof -
  from specAndPath_result [OF k r] obtain t f ext where
    "specIndex = length (specs c)"
    "paths c9 = paths c @ [(int (length (specs c)), (if isProperty n then - int t else int t), j)]"
    "specs c9 = specs c @ [(length (specs c), f, nodeType n)]"
    "tokens c9 = tokens c @ ext" "t < length (tokens c9)" "tokens c9 ! t = nodeName n"
    by blast
  then show ?thesis unfolding nodeWritten_def by blast
qed

lemma keeps_qualifiers_after:
  "keepsTables c (snd s) \<Longrightarrow> keepsTables c (snd (foldl qualifierField s qs))"
  by (erule keepsTables_trans) (rule keeps_qualifiers)

lemma keeps_attMetadata_after:
  "keepsTables c (snd s) \<Longrightarrow> keepsTables c (snd (foldl attMetadataField s md))"
  by (erule keepsTables_trans) (rule keeps_attMetadata)

lemma writeUsdConnection_eq:
  "writeUsdConnection patts a target h c =
     (let s2 = foldl qualifierField (1, addFieldToken ''typeName'' ''token'' c) (qualifiers a);
          c4 = addFieldPathVector ''connectionChildren'' (attPathIndex h target)
                 (addFieldPathListOp ''connectionPaths'' (attPathIndex h target) (snd s2));
          r = specAndPath (fst s2 + 2) Attribute (attName a) (UsdAttribute_getPathJump patts a) True c4
      in (h\<lparr>attPathIndex := (attPathIndex h)(attId a := int (fst r))\<rparr>, snd r))"
  by (simp add: writeUsdConnection_def specAndPath_def Let_def split_def)

lemma writeUsdRelationship_eq:
  "writeUsdRelationship patts a target h c =
     (let c3 = addFieldPathVector ''targetChildren'' (primPathIndex h target)
                 (addFieldPathListOp ''targetPaths'' (primPathIndex h target)
                    (addFieldVariability ''variability'' c));
          r = specAndPath 3 Relationship (attName a) (UsdAttribute_getPathJump patts a) True c3
      in (h\<lparr>attPathIndex := (attPathIndex h)(attId a := int (fst r))\<rparr>, snd r))"
  by (simp add: writeUsdRelationship_def specAndPath_def Let_def split_def)

lemma writeUsdAttribute_eq:
  "writeUsdAttribute patts a h c =
     (let s1 = (1, addFieldToken ''typeName'' (valueTypeStr a) c);
          s2 = foldl qualifierField s1 (qualifiers a);
          s3 = foldl attMetadataField s2 (attMetadata a)
      in case (if attValue a \<noteq> Null
               then (case addField ''default'' (attValue a) (snd s3) of
                       Inl e \<Rightarrow> Inl e
                     | Inr c4 \<Rightarrow> Inr (fst s3 + 1, c4))
               else Inr s3) of
           Inl e \<Rightarrow> Inl e
         | Inr s4 \<Rightarrow>
             (let s5 = (if frames a > 0
                        then (fst s4 + 1, addFieldTimeSamples ''timeSamples'' (snd s4))
                        else s4);
                  r = specAndPath (fst s5) Attribute (attName a)
                        (UsdAttribute_getPathJump patts a) True (snd s5)
              in Inr (h\<lparr>attPathIndex := (attPathIndex h)(attId a := int (fst r))\<rparr>, snd r)))"
  unfolding writeUsdAttribute_def specAndPath_def Let_def split_def
  by (simp cong: sum.case_cong if_cong)

lemma writeUsdConnection_written:
  assumes "attValue a = AttributeValue target"
    and "writeUsdConnection patts a target h c = (h', c')"
  shows "nodeWritten (attNode this a) h c h' c'"
proof -
  define s2 where "s2 = foldl qualifierField (1, addFieldToken ''typeName'' ''token'' c) (qualifiers a)"
  define c4 where "c4 = addFieldPathVector ''connectionChildren'' (attPathIndex h target)
                 (addFieldPathListOp ''connectionPaths'' (attPathIndex h target) (snd s2))"
  obtain si c9 where r: "specAndPath (fst s2 + 2) Attribute (attName a)
                           (UsdAttribute_getPathJump patts a) True c4 = (si, c9)"
    by (cases "specAndPath (fst s2 + 2) Attribute (attName a) (UsdAttribute_getPathJump patts a) True c4") blast
  have "keepsTables c (snd s2)"
    unfolding s2_def by (rule keeps_qualifiers_after) (simp add: keeps_addFieldToken)
  then have k: "keepsTables c c4"
    unfolding c4_def
    by (blast intro: keepsTables_trans keeps_addFieldPathListOp keeps_addFieldPathVector)
  have ty: "nodeType (attNode this a) = Attribute" "nodeName (attNode this a) = attName a"
    "isProperty (attNode this a) = True"
    using assms(1) by (simp_all add: attNode_def isRelationship_def)
  have "writeUsdConnection patts a target h c =
          (h\<lparr>attPathIndex := (attPathIndex h)(attId a := int si)\<rparr>, c9)"
    unfolding writeUsdConnection_eq Let_def s2_def [symmetric] c4_def [symmetric] r by simp
  then have res: "h' = setNodeIndex (attNode this a) (int si) h" "c' = c9"
    using assms(2) by (simp_all add: attNode_def)
  show ?thesis
    unfolding res
    by (rule written_by_specAndPath [OF k, where n = "attNode this a", unfolded ty, OF r])
qed

lemma writeUsdRelationship_written:
  assumes "attValue a = PrimValue target"
    and "writeUsdRelationship patts a target h c = (h', c')"
  shows "nodeWritten (attNode this a) h c h' c'"
proof -
  define c3 where "c3 = addFieldPathVector ''targetChildren'' (primPathIndex h target)
                 (addFieldPathListOp ''targetPaths'' (primPathIndex h target)
                    (addFieldVariability ''variability'' c))"
  obtain si c9 where r: "specAndPath 3 Relationship (attName a)
                           (UsdAttribute_getPathJump patts a) True c3 = (si, c9)"
    by (cases "specAndPath 3 Relationship (attName a) (UsdAttribute_getPathJump patts a) True c3") blast
  have k: "keepsTables c c3"
    unfolding c3_def
    by (blast intro: keepsTables_trans keeps_addFieldPathListOp keeps_addFieldPathVector
          keeps_plain)
  have ty: "nodeType (attNode this a) = Relationship" "nodeName (attNode this a) = attName a"
    "isProperty (attNode this a) = True"
    using assms(1) by (simp_all add: attNode_def isRelationship_def)
  have "writeUsdRelationship patts a target h c =
          (h\<lparr>attPathIndex := (attPathIndex h)(attId a := int si)\<rparr>, c9)"
    unfolding writeUsdRelationship_eq Let_def c3_def [symmetric] r by simp
  then have res: "h' = setNodeIndex (attNode this a) (int si) h" "c' = c9"
    using assms(2) by (simp_all add: attNode_def)
  show ?thesis
    unfolding res
    by (rule written_by_specAndPath [OF k, where n = "attNode this a", unfolded ty, OF r])
qed

lemma writeUsdAttribute_written:
  assumes nc: "\<not> isRelationship a"
    and w: "writeUsdAttribute patts a h c = Inr (h', c')"
  shows "nodeWritten (attNode this a) h c h' c'"
proof -
  define s3 where "s3 = foldl attMetadataField
      (foldl qualifierField (1, addFieldToken ''typeName'' (valueTypeStr a) c) (qualifiers a))
      (attMetadata a)"
  define r4 where "r4 = (if attValue a \<noteq> Null
               then (case addField ''default'' (attValue a) (snd s3) of
                       Inl e \<Rightarrow> Inl e
                     | Inr c4 \<Rightarrow> Inr (fst s3 + 1, c4))
               else Inr s3)"
  have k3: "keepsTables c (snd s3)"
    unfolding s3_def
    by (intro keeps_attMetadata_after keeps_qualifiers_after) (simp add: keeps_addFieldToken)
  obtain s4 where s4: "r4 = Inr s4"
    using w unfolding writeUsdAttribute_eq Let_def s3_def [symmetric] r4_def [symmetric]
    by (cases r4) simp_all
  have k4: "keepsTables c (snd s4)"
  proof (cases "attValue a \<noteq> Null")
    case True
    then obtain c4 where "addField ''default'' (attValue a) (snd s3) = Inr c4" and "s4 = (fst s3 + 1, c4)"
      using s4 unfolding r4_def by (cases "addField ''default'' (attValue a) (snd s3)") auto
    then show ?thesis using keeps_addField k3 by (auto intro: keepsTables_trans)
  next
    case False
    then show ?thesis using s4 k3 unfolding r4_def by simp
  qed
  define s5 where "s5 = (if frames a > 0
                        then (fst s4 + 1, addFieldTimeSamples ''timeSamples'' (snd s4))
                        else s4)"
  have k5: "keepsTables c (snd s5)"
    unfolding s5_def using k4 by (auto intro: keepsTables_trans keeps_plain)
  obtain si c9 where r: "specAndPath (fst s5) Attribute (attName a)
                           (UsdAttribute_getPathJump patts a) True (snd s5) = (si, c9)"
    by (cases "specAndPath (fst s5) Attribute (attName a) (UsdAttribute_getPathJump patts a) True (snd s5)") blast
  have ty: "nodeType (attNode this a) = Attribute" "nodeName (attNode this a) = attName a"
    "isProperty (attNode this a) = True"
    using nc by (simp_all add: attNode_def)
  have "writeUsdAttribute patts a h c =
          Inr (h\<lparr>attPathIndex := (attPathIndex h)(attId a := int si)\<rparr>, c9)"
    unfolding writeUsdAttribute_eq Let_def s3_def [symmetric] r4_def [symmetric] s4 sum.case
      s5_def [symmetric] r
    by simp
  then have res: "h' = setNodeIndex (attNode this a) (int si) h" "c' = c9"
    using w by (simp_all add: attNode_def)
  show ?thesis
    unfolding res
    by (rule written_by_specAndPath [OF k5, where n = "attNode this a", unfolded ty, OF r])
qed

lemma writeAttributes_written:
  assumes "writeAttributes patts atts h c = Inr (h', c')"
  shows "nodesWritten (map (attNode this) atts) h c h' c'"
  using assms
proof (induction atts arbitrary: h c)
  case Nil
  then show ?case by (simp add: keepsTables_refl)
next
  case (Cons a atts)
  obtain h1 c1 where
    one: "nodeWritten (attNode this a) h c h1 c1"
    and rest: "writeAttributes patts atts h1 c1 = Inr (h', c')"
  proof (cases "attValue a")
    case (AttributeValue target)
    obtain h1 c1 where r: "writeUsdConnection patts a target h c = (h1, c1)"
      by (cases "writeUsdConnection patts a target h c") blast
    then have "writeAttributes patts atts h1 c1 = Inr (h', c')"
      using Cons.prems AttributeValue by simp
    with writeUsdConnection_written [OF AttributeValue r] that show ?thesis by blast
  next
    case (PrimValue target)
    obtain h1 c1 where r: "writeUsdRelationship patts a target h c = (h1, c1)"
      by (cases "writeUsdRelationship patts a target h c") blast
    then have "writeAttributes patts atts h1 c1 = Inr (h', c')"
      using Cons.prems PrimValue by simp
    with writeUsdRelationship_written [OF PrimValue r] that show ?thesis by blast
  next
    case Null
    then have nr: "\<not> isRelationship a" by (simp add: isRelationship_def)
    obtain h1 c1 where r: "writeUsdAttribute patts a h c = Inr (h1, c1)"
      and "writeAttributes patts atts h1 c1 = Inr (h', c')"
      using Cons.prems Null by (cases "writeUsdAttribute patts a h c") auto
    with writeUsdAttribute_written [OF nr r] that show ?thesis by blast
  qed (insert Cons.prems, auto simp add: isRelationship_def
         dest!: writeUsdAttribute_written [rotated] split: sum.splits)
  from nodesWritten_append [OF nodeWritten_single [OF one] Cons.IH [OF rest]]
  show ?case by simp
qed

lemma writeUsdPrim_eq:
  "writeUsdPrim hasSibling (UsdPrim this nm ct md chs atts) h c =
     (case primMetadata h md
             (1 + 1, addFieldToken ''typeName'' ct (addFieldSpecifier ''specifier'' c)) of
        Inl e \<Rightarrow> Inl e
      | Inr s3 \<Rightarrow>
          (let s4 = (if atts \<noteq> []
                     then (fst s3 + 1,
                           addFieldTokenVector ''properties'' (map attName atts) (snd s3))
                     else s3);
               s5 = (if chs \<noteq> []
                     then (fst s4 + 1,
                           addFieldTokenVector ''primChildren'' (map primName chs) (snd s4))
                     else s4);
               r = specAndPath (fst s5) Prim nm
                     (UsdPrim_getPathJump hasSibling (UsdPrim this nm ct md chs atts)) False (snd s5)
           in case writeChildren chs atts chs
                     (h\<lparr>primPathIndex := (primPathIndex h)(this := int (fst r))\<rparr>) (snd r) of
                Inl e \<Rightarrow> Inl e
              | Inr (h2, c10) \<Rightarrow> writeAttributes atts atts h2 c10))"
  unfolding writeUsdPrim.simps specAndPath_def Let_def split_def
  by (simp cong: sum.case_cong if_cong)

lemma writeChildren_written:
  assumes ih: "\<And>ch hs h c h' c'. ch \<in> set chs \<Longrightarrow> writeUsdPrim hs ch h c = Inr (h', c')
                 \<Longrightarrow> nodesWritten (primNodes ch) h c h' c'"
    and w: "writeChildren pch patts chs h c = Inr (h', c')"
  shows "nodesWritten (concat (map primNodes chs)) h c h' c'"
  using assms
proof (induction chs arbitrary: h c)
  case Nil
  then show ?case by (simp add: keepsTables_refl)
next
  case (Cons ch chs)
  obtain h1 c1 where
    one: "writeUsdPrim (hasSiblingIn pch patts ch) ch h c = Inr (h1, c1)"
    and rest: "writeChildren pch patts chs h1 c1 = Inr (h', c')"
    using Cons.prems(2) by (cases "writeUsdPrim (hasSiblingIn pch patts ch) ch h c") auto
  have a: "nodesWritten (primNodes ch) h c h1 c1"
    using Cons.prems(1) [OF _ one] by simp
  have b: "nodesWritten (concat (map primNodes chs)) h1 c1 h' c'"
    using Cons.IH [OF _ rest] Cons.prems(1) by simp
  from nodesWritten_append [OF a b] show ?case by simp
qed

lemma writeUsdPrim_written:
  assumes "writeUsdPrim hs p h c = Inr (h', c')"
  shows "nodesWritten (primNodes p) h c h' c'"
  using assms
proof (induction p arbitrary: hs h c h' c')
  case (UsdPrim this nm ct md chs atts)
  define s2 where
    "s2 = (1 + 1 :: nat, addFieldToken ''typeName'' ct (addFieldSpecifier ''specifier'' c))"
  have k2: "keepsTables c (snd s2)"
    unfolding s2_def by (auto intro: keepsTables_trans keeps_fields)
  obtain s3 where s3: "primMetadata h md s2 = Inr s3"
    using UsdPrim.prems unfolding writeUsdPrim_eq s2_def [symmetric]
    by (cases "primMetadata h md s2") simp_all
  have k3: "keepsTables c (snd s3)"
    using keepsTables_trans [OF k2 keeps_primMetadata [OF s3]] .
  define s4 where "s4 = (if atts \<noteq> []
                     then (fst s3 + 1,
                           addFieldTokenVector ''properties'' (map attName atts) (snd s3))
                     else s3)"
  define s5 where "s5 = (if chs \<noteq> []
                     then (fst s4 + 1,
                           addFieldTokenVector ''primChildren'' (map primName chs) (snd s4))
                     else s4)"
  have k4: "keepsTables c (snd s4)"
    unfolding s4_def using k3 by (auto intro: keepsTables_trans keeps_fields)
  have k5: "keepsTables c (snd s5)"
    unfolding s5_def using k4 by (auto intro: keepsTables_trans keeps_fields)
  define n where "n = PrimNode this nm Prim"
  obtain si c9 where r: "specAndPath (fst s5) Prim nm
      (UsdPrim_getPathJump hs (UsdPrim this nm ct md chs atts)) False (snd s5) = (si, c9)"
    by (cases "specAndPath (fst s5) Prim nm
      (UsdPrim_getPathJump hs (UsdPrim this nm ct md chs atts)) False (snd s5)") blast
  define h1 where "h1 = h\<lparr>primPathIndex := (primPathIndex h)(this := int si)\<rparr>"
  have ty: "nodeType n = Prim" "nodeName n = nm" "isProperty n = False"
    by (simp_all add: n_def)
  have one: "nodeWritten n h c h1 c9"
    using written_by_specAndPath [OF k5, where n = n, unfolded ty, OF r, of h]
    by (simp add: n_def h1_def)
  have eq: "writeUsdPrim hs (UsdPrim this nm ct md chs atts) h c =
          (case writeChildren chs atts chs h1 c9 of
                Inl e \<Rightarrow> Inl e
              | Inr (h2, c10) \<Rightarrow> writeAttributes atts atts h2 c10)"
    unfolding writeUsdPrim_eq s2_def [symmetric] s3 sum.case Let_def s4_def [symmetric]
      s5_def [symmetric] r h1_def
    by simp
  obtain h2 c10 where ch: "writeChildren chs atts chs h1 c9 = Inr (h2, c10)"
    and at: "writeAttributes atts atts h2 c10 = Inr (h', c')"
    using UsdPrim.prems unfolding eq by (cases "writeChildren chs atts chs h1 c9") auto
  have two: "nodesWritten (concat (map primNodes chs)) h1 c9 h2 c10"
    using UsdPrim.IH ch by (rule writeChildren_written)
  have three: "nodesWritten (map (attNode this) atts) h2 c10 h' c'"
    using at by (rule writeAttributes_written)
  from nodesWritten_append [OF nodeWritten_single [OF one] nodesWritten_append [OF two three]]
  show ?case by (simp add: n_def)
qed

lemma writeUsd_eq:
  "writeUsd usdData h c =
     (let h0 = UsdData_updatePathIndices usdData h;
          s1 = foldl rootMetadataField (0, c) (metadata usdData);
          s2 = (if children usdData \<noteq> []
                then (fst s1 + 1,
                      addFieldTokenVector ''primChildren'' (map primName (children usdData)) (snd s1))
                else s1);
          r = specAndPath (fst s2) PseudoRoot '''' (UsdPrim_getPathJump False usdData) False (snd s2)
      in writeChildren (children usdData) (attributes usdData) (children usdData)
           (h0\<lparr>primPathIndex := (primPathIndex h0)(primId usdData := int (fst r))\<rparr>) (snd r))"
  unfolding writeUsd_def specAndPath_def Let_def split_def by simp

lemma writeUsd_written:
  assumes "writeUsd usdData h c = Inr (h', c')"
  shows "nodesWritten (usdNodes usdData) (UsdData_updatePathIndices usdData h) c h' c'"
proof -
  define h0 where "h0 = UsdData_updatePathIndices usdData h"
  define s1 where "s1 = foldl rootMetadataField (0, c) (metadata usdData)"
  define s2 where "s2 = (if children usdData \<noteq> []
                then (fst s1 + 1,
                      addFieldTokenVector ''primChildren'' (map primName (children usdData)) (snd s1))
                else s1)"
  have k1: "keepsTables c (snd s1)"
    unfolding s1_def using keeps_rootMetadata [of "(0, c)"] by simp
  have k2: "keepsTables c (snd s2)"
    unfolding s2_def using k1 by (auto intro: keepsTables_trans keeps_fields)
  define n where "n = PrimNode (primId usdData) '''' PseudoRoot"
  obtain si c9 where r: "specAndPath (fst s2) PseudoRoot ''''
      (UsdPrim_getPathJump False usdData) False (snd s2) = (si, c9)"
    by (cases "specAndPath (fst s2) PseudoRoot '''' (UsdPrim_getPathJump False usdData) False (snd s2)") blast
  define h1 where "h1 = h0\<lparr>primPathIndex := (primPathIndex h0)(primId usdData := int si)\<rparr>"
  have ty: "nodeType n = PseudoRoot" "nodeName n = ''''" "isProperty n = False"
    by (simp_all add: n_def)
  have one: "nodeWritten n h0 c h1 c9"
    using written_by_specAndPath [OF k2, where n = n, unfolded ty, OF r, of h0]
    by (simp add: n_def h1_def)
  have eq: "writeUsd usdData h c =
          writeChildren (children usdData) (attributes usdData) (children usdData) h1 c9"
    unfolding writeUsd_eq Let_def h0_def [symmetric] s1_def [symmetric] s2_def [symmetric] r h1_def
    by simp
  have two: "nodesWritten (concat (map primNodes (children usdData))) h1 c9 h' c'"
    using writeUsdPrim_written assms unfolding eq by (rule writeChildren_written)
  from nodesWritten_append [OF nodeWritten_single [OF one] two]
  show ?thesis by (simp add: usdNodes_def n_def h0_def)
qed

subsection \<open>Path table: the sign of the tokens\<close>

lemma tokenOf_mono: "tokenOf toks n t \<Longrightarrow> tokenOf (toks @ ext) n t"
  by (auto simp add: tokenOf_def nth_append)

lemma tablesFor_keeps:
  assumes "keepsTables c c'" and "tablesFor ms c"
  shows "tablesFor ms c'"
proof -
  obtain ext where "tokens c' = tokens c @ ext" "paths c' = paths c" "specs c' = specs c"
    using assms(1) by (auto simp add: keepsTables_def)
  then show ?thesis
    using assms(2) unfolding tablesFor_def
    by (auto elim!: list_all2_mono simp add: tokenOf_mono)
qed

lemma tablesFor_node:
  assumes w: "nodeWritten n h c h' c'" and t: "tablesFor ms c"
  shows "tablesFor (ms @ [n]) c'"
proof -
  from w obtain k j f ext where
    pp: "paths c' = paths c @ [(int (length (specs c)), (if isProperty n then - int k else int k), j)]"
    and ss: "specs c' = specs c @ [(length (specs c), f, nodeType n)]"
    and tt: "tokens c' = tokens c @ ext" and kk: "k < length (tokens c')" "tokens c' ! k = nodeName n"
    unfolding nodeWritten_def by blast
  have "length (map fst (specs c)) = length [0..<length ms]"
    using t by (simp only: tablesFor_def)
  then have len: "length (specs c) = length ms" by simp
  have new: "tokenOf (tokens c') n (if isProperty n then - int k else int k)"
    using kk by (simp add: tokenOf_def)
  have old: "list_all2 (tokenOf (tokens c')) ms (map (fst \<circ> snd) (paths c))"
    using t unfolding tablesFor_def tt
    by (auto elim!: list_all2_mono simp add: tokenOf_mono)
  show ?thesis
    unfolding tablesFor_def
  proof (intro conjI)
    show "map fst (paths c') = map int [0..<length (ms @ [n])]"
      using t by (simp add: tablesFor_def pp len)
    show "map fst (specs c') = [0..<length (ms @ [n])]"
      using t by (simp add: tablesFor_def ss len)
    show "map (snd \<circ> snd) (specs c') = map nodeType (ms @ [n])"
      using t by (simp add: tablesFor_def ss)
    show "list_all2 (tokenOf (tokens c')) (ms @ [n]) (map (fst \<circ> snd) (paths c'))"
      using old new by (simp add: pp list_all2_appendI)
  qed
qed

lemma tablesFor_nodes:
  assumes "nodesWritten ns h c h' c'" and "tablesFor ms c"
  shows "tablesFor (ms @ ns) c'"
  using assms
proof (induction ns arbitrary: ms h c)
  case Nil
  then show ?case by (auto intro: tablesFor_keeps)
next
  case (Cons n ns)
  from Cons.prems(1) obtain h1 c1 where
    one: "nodeWritten n h c h1 c1" and rest: "nodesWritten ns h1 c1 h' c'"
    by auto
  have "tablesFor (ms @ [n]) c1" using one Cons.prems(2) by (rule tablesFor_node)
  from Cons.IH [OF rest this] show ?case by simp
qed

text \<open>
  Claim C1, as the code has it: when \<open>writeUsd\<close> has filled the tables of a new writer, the
  paths and the specs stand for the nodes of the tree in writing order, the \<open>i\<close>-th with
  the index \<open>i\<close> and the spec with the type of the node; the token of the path of a prim
  (the pseudo-root included) is the index of its name in the token table, not negated,
  and the token of the path of an attribute, a connection or a relationship is minus
  the index of its name.
\<close>

theorem paths_token_sign:
  assumes "writeUsd usdData h newCrateFile = Inr (h', c)"
  shows "map fst (paths c) = map int [0..<length (usdNodes usdData)]
         \<and> map fst (specs c) = [0..<length (usdNodes usdData)]
         \<and> map (snd \<circ> snd) (specs c) = map nodeType (usdNodes usdData)
         \<and> list_all2 (tokenOf (tokens c)) (usdNodes usdData) (map (fst \<circ> snd) (paths c))"
proof -
  have "tablesFor [] newCrateFile"
    by (simp add: tablesFor_def newCrateFile_def)
  with writeUsd_written [OF assms] have "tablesFor ([] @ usdNodes usdData) c"
    by (rule tablesFor_nodes)
  then show ?thesis by (simp add: tablesFor_def)
qed

lemma sceneX_written:
  "(case writeUsd sceneX newHeap newCrateFile of
      Inl e \<Rightarrow> False
    | Inr (h, c) \<Rightarrow>
        paths c = [(0, 2, - 1), (1, 1, - 1), (2, - 7, - 2)]
        \<and> map (snd \<circ> snd) (specs c) = [PseudoRoot, Prim, Attribute]
        \<and> tokens c ! 2 = [] \<and> tokens c ! 1 = ''a'' \<and> tokens c ! 7 = ''x''
        \<and> primPathIndex h 0 = 0 \<and> primPathIndex h 1 = 1 \<and> attPathIndex h 0 = 2)"
  by code_simp

lemma writeUsd_sceneX:
  "\<exists>h c. writeUsd sceneX newHeap newCrateFile = Inr (h, c)"
  using sceneX_written by (cases "writeUsd sceneX newHeap newCrateFile") auto

theorem paths_token_sign_witness:
  "\<exists>h c. writeUsd sceneX newHeap newCrateFile = Inr (h, c)
     \<and> map fst (paths c) = map int [0..<length (usdNodes sceneX)]
     \<and> map fst (specs c) = [0..<length (usdNodes sceneX)]
     \<and> map (snd \<circ> snd) (specs c) = map nodeType (usdNodes sceneX)
     \<and> list_all2 (tokenOf (tokens c)) (usdNodes sceneX) (map (fst \<circ> snd) (paths c))"
proof -
  obtain h c where w: "writeUsd sceneX newHeap newCrateFile = Inr (h, c)"
    using writeUsd_sceneX by blast
  from paths_token_sign [OF w] w show ?thesis by blast
qed

text \<open>
  Claim C1 as it is stated fails on the scene with one prim \<open>a\<close> and its attribute \<open>x\<close>:
  the paths are \<open>(0, 2, -1)\<close> for the pseudo-root, \<open>(1, 1, -1)\<close> for the prim and
  \<open>(2, -7, -2)\<close> for the attribute, with \<open>a\<close> the token 1 and \<open>x\<close> the token 7. The token of
  the prim is not negated and the token of the attribute is.
\<close>

theorem paths_token_sign_counterexample:
  "(case writeUsd sceneX newHeap newCrateFile of
      Inl e \<Rightarrow> False
    | Inr (h, c) \<Rightarrow>
        paths c = [(0, 2, - 1), (1, 1, - 1), (2, - 7, - 2)]
        \<and> map (snd \<circ> snd) (specs c) = [PseudoRoot, Prim, Attribute]
        \<and> tokens c ! 2 = [] \<and> tokens c ! 1 = ''a'' \<and> tokens c ! 7 = ''x'')"
  using sceneX_written by (cases "writeUsd sceneX newHeap newCrateFile") auto

subsection \<open>Path indices: the traversal\<close>











subsection \<open>Path indices: the writer\<close>








end
